theory Spec2Isabelle
  imports
    Main
    "HOL-Library.Word"
    "HOL-Library.Multiset"
    "HOL-Library.Char_ord"
    "HOL-Library.List_Lexorder"
begin

unbundle bit_operations_syntax

section \<open>Python values and exceptions\<close>

text \<open>
  The library is Python 2. Its integers are unbounded and are modelled as \<open>int\<close>;
  the elements of a \<open>bytearray\<close> and of a byte string lie in \<open>0..255\<close> by
  construction and are modelled as \<open>8 word\<close>. Every exception the modelled code can
  raise is a constructor of \<open>error\<close>, and a function that can raise returns
  \<open>error + 'a\<close> with \<open>Inl\<close> for the exception.
\<close>

datatype error =
    IndexError
  | ZeroDivisionError
  | ValueError
  | IOError
  | StructError
  | GearboxEncryptionException
  | NameError
  | OSError
  | AttributeError
  | TypeError

type_synonym byte = "8 word"

text \<open>The position that a Python index denotes in a sequence of \<open>len\<close> elements:
  an index below zero counts back from the end, and an index that falls outside the
  sequence denotes nothing.\<close>

definition seq_position :: "nat \<Rightarrow> int \<Rightarrow> nat option" where
  "seq_position len i =
     (if 0 \<le> i \<and> i < int len then Some (nat i)
      else if i < 0 \<and> - int len \<le> i then Some (nat (int len + i))
      else None)"

text \<open>Subscription \<open>xs[i]\<close>, raising \<open>IndexError\<close> outside the sequence.\<close>

definition list_index :: "'a list \<Rightarrow> int \<Rightarrow> error + 'a" where
  "list_index xs i =
     (case seq_position (length xs) i of
        None \<Rightarrow> Inl IndexError
      | Some k \<Rightarrow> Inr (xs ! k))"

text \<open>Item assignment \<open>combined_key[i] = v\<close> on a \<open>bytearray\<close>; a value outside
  \<open>range(256)\<close> raises \<open>ValueError\<close>.\<close>

definition bytearray_set :: "byte list \<Rightarrow> int \<Rightarrow> int \<Rightarrow> error + byte list" where
  "bytearray_set xs i v =
     (case seq_position (length xs) i of
        None \<Rightarrow> Inl IndexError
      | Some k \<Rightarrow>
          if 0 \<le> v \<and> v < 256 then Inr (xs[k := word_of_int v]) else Inl ValueError)"

section \<open>naabal.util\<close>

text \<open>\<open>split_by(iterable, chunk_size)\<close>: the slices \<open>iterable[pos:pos+chunk_size]\<close> for
  \<open>pos\<close> in \<open>xrange(0, len(iterable), chunk_size)\<close>; \<open>xrange\<close> raises \<open>ValueError\<close>
  for a step of zero.\<close>

definition split_by :: "'a list \<Rightarrow> nat \<Rightarrow> error + 'a list list" where
  "split_by iterable chunk_size =
     (if chunk_size = 0 then Inl ValueError
      else Inr (map (\<lambda>k. take chunk_size (drop (k * chunk_size) iterable))
                  [0..<(length iterable + chunk_size - 1) div chunk_size]))"

text \<open>\<open>ROTL = lambda uint32, bits: ((uint32 << bits) | (uint32 >> (32 - bits)))\<close>, on
  Python's unbounded integers: nothing truncates the result to 32 bits. The only call
  passes \<open>bits = 8\<close>.\<close>

definition ROTL :: "int \<Rightarrow> nat \<Rightarrow> int" where
  "ROTL uint32 bits = (push_bit bits uint32) OR (drop_bit (32 - bits) uint32)"

text \<open>\<open>SPLIT_TO_BYTES = lambda uint32: bytearray((uint32 & (0xFF << s)) >> s
  for s in range(0, 32, 8))\<close>. Every element is masked to eight bits, so the elements are
  kept as the integers the later \<open>c ^ bytes[j]\<close> reads.\<close>

definition SPLIT_TO_BYTES :: "int \<Rightarrow> int list" where
  "SPLIT_TO_BYTES uint32 = map (\<lambda>s. drop_bit s (uint32 AND push_bit s 255)) [0, 8, 16, 24]"

text \<open>\<open>CAST_TO_CHAR = lambda uint32: uint32 & 0xFF\<close>.\<close>

definition CAST_TO_CHAR :: "int \<Rightarrow> int" where
  "CAST_TO_CHAR uint32 = uint32 AND 255"

text \<open>Modelled from the spec: \<open>COMBINE_BYTES\<close> is imported from
  \<open>naabal.util.c_macros\<close>, which is not among the sources. The specification says that
  both keys are consumed as sequences of 4-byte little-endian words, so a chunk is read as
  the little-endian number of its bytes.\<close>

definition COMBINE_BYTES :: "byte list \<Rightarrow> int" where
  "COMBINE_BYTES bytes = foldr (\<lambda>b acc. uint b + 256 * acc) bytes 0"

section \<open>naabal.util.gbx\_crypt: the Gearbox stream cipher\<close>

record GearboxCrypt =
  chunk_size :: int
  data_size :: int
  key_size :: nat
  encryption_key :: "byte list"

subsection \<open>Key schedule\<close>

text \<open>The innermost loop \<open>for j in range(4)\<close> of \<open>_combine_keys\<close>:
  \<open>c = global_key[CAST_TO_CHAR(c ^ bytes[j])] ^ (c >> 8)\<close>.\<close>

fun inner_rounds :: "int list \<Rightarrow> int list \<Rightarrow> nat list \<Rightarrow> int \<Rightarrow> error + int" where
  "inner_rounds global_key bytes [] c = Inr c"
| "inner_rounds global_key bytes (j # js) c =
     (case list_index bytes (int j) of
        Inl e \<Rightarrow> Inl e
      | Inr bj \<Rightarrow>
          (case list_index global_key (CAST_TO_CHAR (c XOR bj)) of
             Inl e \<Rightarrow> Inl e
           | Inr g \<Rightarrow> inner_rounds global_key bytes js (g XOR drop_bit 8 c)))"

text \<open>The loop \<open>for b in range(4)\<close>: decompose \<open>ROTL(c + self._data_size, 8)\<close>, run the
  four inner rounds and store \<open>CAST_TO_CHAR(c)\<close> at \<open>combined_key[i + b]\<close>.\<close>

fun sub_rounds ::
  "int \<Rightarrow> int list \<Rightarrow> nat \<Rightarrow> nat list \<Rightarrow> byte list \<times> int \<Rightarrow> error + byte list \<times> int" where
  "sub_rounds dsize global_key i [] (combined_key, c) = Inr (combined_key, c)"
| "sub_rounds dsize global_key i (b # bs) (combined_key, c) =
     (case inner_rounds global_key (SPLIT_TO_BYTES (ROTL (c + dsize) 8)) [0..<4] c of
        Inl e \<Rightarrow> Inl e
      | Inr c' \<Rightarrow>
          (case bytearray_set combined_key (int (i + b)) (CAST_TO_CHAR c') of
             Inl e \<Rightarrow> Inl e
           | Inr combined_key' \<Rightarrow> sub_rounds dsize global_key i bs (combined_key', c')))"

text \<open>The outer loop \<open>for i in xrange(0, self._key_size, 4)\<close>, with
  \<open>c = local_key[i / 4]\<close> (integer division in Python 2).\<close>

fun key_blocks ::
  "int \<Rightarrow> int list \<Rightarrow> int list \<Rightarrow> nat list \<Rightarrow> byte list \<Rightarrow> error + byte list" where
  "key_blocks dsize local_key global_key [] combined_key = Inr combined_key"
| "key_blocks dsize local_key global_key (i # is) combined_key =
     (case list_index local_key (int i div 4) of
        Inl e \<Rightarrow> Inl e
      | Inr c \<Rightarrow>
          (case sub_rounds dsize global_key i [0..<4] (combined_key, c) of
             Inl e \<Rightarrow> Inl e
           | Inr (combined_key', c') \<Rightarrow>
               key_blocks dsize local_key global_key is combined_key'))"

text \<open>\<open>xrange(0, n, 4)\<close>.\<close>

definition xrange4 :: "nat \<Rightarrow> nat list" where
  "xrange4 n = map (\<lambda>k. 4 * k) [0..<(n + 3) div 4]"

text \<open>\<open>GearboxCrypt._combine_keys\<close>; \<open>ksize\<close> and \<open>dsize\<close> are the attributes
  \<open>self._key_size\<close> and \<open>self._data_size\<close> that \<open>__init__\<close> has set before the call.\<close>

definition combine_keys :: "nat \<Rightarrow> int \<Rightarrow> byte list \<Rightarrow> byte list \<Rightarrow> error + byte list" where
  "combine_keys ksize dsize local_key global_key =
     (case split_by local_key 4 of
        Inl e \<Rightarrow> Inl e
      | Inr lchunks \<Rightarrow>
          (case split_by global_key 4 of
             Inl e \<Rightarrow> Inl e
           | Inr gchunks \<Rightarrow>
               key_blocks dsize (map COMBINE_BYTES lchunks) (map COMBINE_BYTES gchunks)
                 (xrange4 ksize) (replicate ksize 0)))"

text \<open>\<open>GearboxCrypt.__init__(data_size, local_key, global_key, chunk_size=4 * 1024)\<close>.\<close>

definition GearboxCrypt_init ::
  "int \<Rightarrow> byte list \<Rightarrow> byte list \<Rightarrow> int \<Rightarrow> error + GearboxCrypt" where
  "GearboxCrypt_init dsize local_key global_key csize =
     (case combine_keys (length local_key) dsize local_key global_key of
        Inl e \<Rightarrow> Inl e
      | Inr k \<Rightarrow>
          Inr \<lparr>chunk_size = csize, data_size = dsize,
               key_size = length local_key, encryption_key = k\<rparr>)"

definition default_chunk_size :: int where
  "default_chunk_size = 4 * 1024"

subsection \<open>Key stream, encryption and decryption\<close>

text \<open>\<open>_key_stream\<close> is a generator: for \<open>i\<close> in \<open>xrange(start_pos, start_pos + length)\<close>
  it yields \<open>key[i % ks]\<close>. Each element of the modelled list is what one \<open>next\<close> gives: a
  byte, or the exception it raises (\<open>i % 0\<close> raises \<open>ZeroDivisionError\<close>).\<close>

definition key_stream :: "GearboxCrypt \<Rightarrow> nat \<Rightarrow> int \<Rightarrow> (error + byte) list" where
  "key_stream g len start_pos =
     map (\<lambda>k. let i = start_pos + int k in
               if key_size g = 0 then Inl ZeroDivisionError
               else list_index (encryption_key g) (i mod int (key_size g)))
         [0..<len]"

text \<open>\<open>bytearray(f(c, k) for c, k in izip(data, key_data))\<close>: \<open>izip\<close> draws from the
  data first and stops when it is exhausted; an exception of the generator propagates.\<close>

fun izip_bytes :: "(int \<Rightarrow> int \<Rightarrow> int) \<Rightarrow> byte list \<Rightarrow> (error + byte) list \<Rightarrow> error + byte list" where
  "izip_bytes f [] ks = Inr []"
| "izip_bytes f (c # cs) [] = Inr []"
| "izip_bytes f (c # cs) (k # ks) =
     (case k of
        Inl e \<Rightarrow> Inl e
      | Inr kb \<Rightarrow>
          (case izip_bytes f cs ks of
             Inl e \<Rightarrow> Inl e
           | Inr r \<Rightarrow> Inr (word_of_int (f (uint c) (uint kb)) # r)))"

text \<open>\<open>decrypt\<close>: \<open>0xFF & (c + k)\<close>; \<open>encrypt\<close>: \<open>0xFF & (c - k)\<close>.\<close>

definition decrypt :: "GearboxCrypt \<Rightarrow> byte list \<Rightarrow> int \<Rightarrow> error + byte list" where
  "decrypt g data offset =
     izip_bytes (\<lambda>c k. 255 AND (c + k)) data (key_stream g (length data) offset)"

definition encrypt :: "GearboxCrypt \<Rightarrow> byte list \<Rightarrow> int \<Rightarrow> error + byte list" where
  "encrypt g data offset =
     izip_bytes (\<lambda>c k. 255 AND (c - k)) data (key_stream g (length data) offset)"

subsection \<open>File objects\<close>

text \<open>A Python file object opened for reading (the object \<open>open\<close> returns, a
  \<open>StringIO\<close>): its bytes and its read cursor. \<open>read(size)\<close> with an integer size
  returns the bytes up to the end when \<open>size\<close> is negative and at most \<open>size\<close> bytes
  otherwise, and advances the cursor by what it returned; \<open>seek\<close> to a negative
  position raises \<open>IOError\<close>, and the cursor may be placed past the end.\<close>

record buffer =
  contents :: "byte list"
  position :: nat

datatype whence = SEEK_SET | SEEK_CUR | SEEK_END

definition file_tell :: "buffer \<Rightarrow> int" where
  "file_tell h = int (position h)"

definition file_read :: "buffer \<Rightarrow> int \<Rightarrow> byte list \<times> buffer" where
  "file_read h n =
     (let rest = drop (position h) (contents h);
          chunk = (if n < 0 then rest else take (nat n) rest)
      in (chunk, h\<lparr>position := position h + length chunk\<rparr>))"

definition file_seek :: "buffer \<Rightarrow> int \<Rightarrow> whence \<Rightarrow> error + buffer" where
  "file_seek h off wh =
     (let base = (case wh of
                    SEEK_SET \<Rightarrow> 0
                  | SEEK_CUR \<Rightarrow> int (position h)
                  | SEEK_END \<Rightarrow> int (length (contents h)));
          p = base + off
      in if p < 0 then Inl IOError else Inr (h\<lparr>position := nat p\<rparr>))"

subsection \<open>Streaming\<close>

text \<open>The \<open>while chunk:\<close> loops of \<open>decrypt_stream\<close> and \<open>encrypt_stream\<close>. The
  output buffer is the sequence of bytes written to it so far, and \<open>write\<close> appends.
  The loop stops at the first empty chunk; every other round consumes at least one byte
  of the input, which is the termination argument.\<close>

function decrypt_loop ::
  "GearboxCrypt \<Rightarrow> byte list \<Rightarrow> buffer \<Rightarrow> byte list \<Rightarrow> int \<Rightarrow> error + buffer \<times> byte list" where
  "decrypt_loop g chunk input_buffer output_buffer off =
     (if chunk = [] then Inr (input_buffer, output_buffer)
      else (case decrypt g chunk off of
              Inl e \<Rightarrow> Inl e
            | Inr plain \<Rightarrow>
                decrypt_loop g
                  (fst (file_read input_buffer (chunk_size g)))
                  (snd (file_read input_buffer (chunk_size g)))
                  (output_buffer @ plain)
                  (off + int (length chunk))))"
  by pat_completeness auto
termination
  by (relation "measure (\<lambda>(g, chunk, inp, out, off).
        2 * (length (contents inp) - position inp) + (if chunk = [] then 0 else 1))")
     (auto simp: file_read_def Let_def split: if_splits)

function encrypt_loop ::
  "GearboxCrypt \<Rightarrow> byte list \<Rightarrow> buffer \<Rightarrow> byte list \<Rightarrow> int \<Rightarrow> error + buffer \<times> byte list" where
  "encrypt_loop g chunk input_buffer output_buffer off =
     (if chunk = [] then Inr (input_buffer, output_buffer)
      else (case encrypt g chunk off of
              Inl e \<Rightarrow> Inl e
            | Inr cipher \<Rightarrow>
                encrypt_loop g
                  (fst (file_read input_buffer (chunk_size g)))
                  (snd (file_read input_buffer (chunk_size g)))
                  (output_buffer @ cipher)
                  (off + int (length chunk))))"
  by pat_completeness auto
termination
  by (relation "measure (\<lambda>(g, chunk, inp, out, off).
        2 * (length (contents inp) - position inp) + (if chunk = [] then 0 else 1))")
     (auto simp: file_read_def Let_def split: if_splits)

text \<open>\<open>decrypt_stream(input_buffer, output_buffer, offset=0)\<close> returns the number of
  bytes consumed; the model returns it together with both buffers.\<close>

definition decrypt_stream ::
  "GearboxCrypt \<Rightarrow> buffer \<Rightarrow> byte list \<Rightarrow> int \<Rightarrow> error + int \<times> buffer \<times> byte list" where
  "decrypt_stream g input_buffer output_buffer off =
     (let start_pos = file_tell input_buffer;
          off' = off + start_pos;
          first = file_read input_buffer (chunk_size g)
      in case decrypt_loop g (fst first) (snd first) output_buffer off' of
           Inl e \<Rightarrow> Inl e
         | Inr (inp, out) \<Rightarrow> Inr (file_tell inp - start_pos, inp, out))"

definition encrypt_stream ::
  "GearboxCrypt \<Rightarrow> buffer \<Rightarrow> byte list \<Rightarrow> int \<Rightarrow> error + int \<times> buffer \<times> byte list" where
  "encrypt_stream g input_buffer output_buffer off =
     (let start_pos = file_tell input_buffer;
          off' = off + start_pos;
          first = file_read input_buffer (chunk_size g)
      in case encrypt_loop g (fst first) (snd first) output_buffer off' of
           Inl e \<Rightarrow> Inl e
         | Inr (inp, out) \<Rightarrow> Inr (file_tell inp - start_pos, inp, out))"

subsection \<open>The cipher as the specification words it\<close>

text \<open>The key schedule of the specification, with the 32-bit arithmetic written out on
  integers: for the local word \<open>c\<close> of a block, four sub-rounds, each decomposing the
  32-bit left rotation by 8 of \<open>c + data_size\<close> into its little-endian bytes, running
  one substitution round per byte and emitting the low byte of \<open>c\<close>.\<close>

definition rotate_left32 :: "int \<Rightarrow> nat \<Rightarrow> int" where
  "rotate_left32 x n = (x mod 2 ^ 32 * 2 ^ n) mod 2 ^ 32 + (x mod 2 ^ 32) div 2 ^ (32 - n)"

definition spec_decompose :: "int \<Rightarrow> int list" where
  "spec_decompose w = map (\<lambda>s. (w div 2 ^ s) mod 256) [0, 8, 16, 24]"

definition spec_inner_round :: "int list \<Rightarrow> int \<Rightarrow> int \<Rightarrow> int" where
  "spec_inner_round table c d = (table ! nat ((c XOR d) mod 256)) XOR (c div 256)"

definition spec_sub_round :: "int \<Rightarrow> int list \<Rightarrow> int \<Rightarrow> int" where
  "spec_sub_round dsize table c =
     foldl (spec_inner_round table) c (spec_decompose (rotate_left32 (c + dsize) 8))"

fun spec_block :: "int \<Rightarrow> int list \<Rightarrow> int \<Rightarrow> nat \<Rightarrow> byte list" where
  "spec_block dsize table c 0 = []"
| "spec_block dsize table c (Suc n) =
     (let c' = spec_sub_round dsize table c
      in word_of_int (c' mod 256) # spec_block dsize table c' n)"

definition spec_combined_key :: "int \<Rightarrow> int list \<Rightarrow> int list \<Rightarrow> byte list" where
  "spec_combined_key dsize local_words table =
     concat (map (\<lambda>c. spec_block dsize table c 4) local_words)"

text \<open>The sums \<open>c + data_size\<close> of the \<open>n\<close> sub-rounds that start from \<open>c\<close> all fit
  in 32 bits.\<close>

fun sums_fit :: "int \<Rightarrow> int list \<Rightarrow> int \<Rightarrow> nat \<Rightarrow> bool" where
  "sums_fit dsize table c 0 = True"
| "sums_fit dsize table c (Suc n) =
     (0 \<le> c + dsize \<and> c + dsize < 2 ^ 32 \<and> sums_fit dsize table (spec_sub_round dsize table c) n)"

text \<open>The key stream and the two directions of the specification:
  \<open>keystream[p] = combined_key[p mod key_size]\<close>,
  \<open>ciphertext[p] = (plaintext[p] + keystream[p]) mod 256\<close> and
  \<open>plaintext[p] = (ciphertext[p] - keystream[p]) mod 256\<close>.\<close>

definition spec_keystream :: "byte list \<Rightarrow> int \<Rightarrow> byte" where
  "spec_keystream combined_key p = combined_key ! nat (p mod int (length combined_key))"

definition spec_encrypt :: "byte list \<Rightarrow> byte list \<Rightarrow> int \<Rightarrow> byte list" where
  "spec_encrypt combined_key plaintext off =
     map (\<lambda>i. word_of_int
                ((uint (plaintext ! i) + uint (spec_keystream combined_key (off + int i))) mod 256))
       [0..<length plaintext]"

definition spec_decrypt :: "byte list \<Rightarrow> byte list \<Rightarrow> int \<Rightarrow> byte list" where
  "spec_decrypt combined_key ciphertext off =
     map (\<lambda>i. word_of_int
                ((uint (ciphertext ! i) - uint (spec_keystream combined_key (off + int i))) mod 256))
       [0..<length ciphertext]"

text \<open>A substitution table for concrete runs: 256 little-endian words, word \<open>k\<close> having
  the value \<open>k\<close>.\<close>

definition identity_table :: "byte list" where
  "identity_table = concat (map (\<lambda>k. [of_nat k, 0, 0, 0]) [0..<256])"

definition table_words :: "int list" where
  "table_words = map int [0..<256]"

text \<open>Two cipher objects for concrete runs: the one \<open>GearboxCrypt(16, '\x01\x00\x00\x00',
  identity_table)\<close> builds, and the one built from an empty local key.\<close>

definition sample_crypt :: GearboxCrypt where
  "sample_crypt =
     \<lparr>chunk_size = default_chunk_size, data_size = 16, key_size = 4,
      encryption_key = [16, 48, 112, 240]\<rparr>"

definition empty_key_crypt :: GearboxCrypt where
  "empty_key_crypt =
     \<lparr>chunk_size = default_chunk_size, data_size = 0, key_size = 0, encryption_key = []\<rparr>"

section \<open>naabal.formats.big: the encrypted archive\<close>

text \<open>\<open>struct.unpack('<L', s)[0]\<close> and \<open>struct.unpack('<H', s)[0]\<close>: the unsigned
  little-endian number of exactly 4, respectively 2, bytes; any other length raises
  \<open>struct.error\<close>.\<close>

definition le_uint :: "byte list \<Rightarrow> int" where
  "le_uint s = foldr (\<lambda>b acc. uint b + 256 * acc) s 0"

definition struct_unpack :: "nat \<Rightarrow> byte list \<Rightarrow> error + int" where
  "struct_unpack width s = (if length s = width then Inr (le_uint s) else Inl StructError)"

definition ENCRYPTION_KEY_MARKER :: int where
  "ENCRYPTION_KEY_MARKER = 0"

definition ENCRYPTION_KEY_MAX_SIZE :: int where
  "ENCRYPTION_KEY_MAX_SIZE = 1024"

text \<open>\<open>GearboxEncryptedBigFile._load_encryption\<close>, reading through \<open>self._handle\<close>.
  \<open>MASTER_KEY\<close> is \<open>None\<close> in this class and set by the concrete formats, which are
  not among the sources; it is a parameter. The result is what the method returns or
  raises, together with the handle as the method leaves it.\<close>

definition load_encryption :: "byte list \<Rightarrow> buffer \<Rightarrow> (error + GearboxCrypt) \<times> buffer" where
  "load_encryption MASTER_KEY h =
     (case file_seek h (- 4) SEEK_END of
        Inl e \<Rightarrow> (Inl e, h)
      | Inr h1 \<Rightarrow>
          (let last_int_loc = file_tell h1;
               r1 = file_read h1 4
           in case struct_unpack 4 (fst r1) of
                Inl e \<Rightarrow> (Inl e, snd r1)
              | Inr marker_offset \<Rightarrow>
                  if marker_offset < last_int_loc - 6 then
                    (case file_seek (snd r1) (- marker_offset) SEEK_CUR of
                       Inl e \<Rightarrow> (Inl e, snd r1)
                     | Inr h2 \<Rightarrow>
                         (let encrypted_data_size = file_tell h2;
                              r2 = file_read h2 4
                          in case struct_unpack 4 (fst r2) of
                               Inl e \<Rightarrow> (Inl e, snd r2)
                             | Inr marker \<Rightarrow>
                                 if marker = ENCRYPTION_KEY_MARKER then
                                   (let r3 = file_read (snd r2) 2
                                    in case struct_unpack 2 (fst r3) of
                                         Inl e \<Rightarrow> (Inl e, snd r3)
                                       | Inr encryption_key_bytes \<Rightarrow>
                                           if encryption_key_bytes \<le> ENCRYPTION_KEY_MAX_SIZE then
                                             (let r4 = file_read (snd r3) encryption_key_bytes
                                              in (GearboxCrypt_init encrypted_data_size (fst r4)
                                                    MASTER_KEY default_chunk_size, snd r4))
                                           else (Inl GearboxEncryptionException, snd r3))
                                 else (Inl GearboxEncryptionException, snd r2)))
                  else (Inl GearboxEncryptionException, snd r1)))"

text \<open>The attributes of a \<open>GearboxEncryptedBigFile\<close> that the encrypted read path uses:
  \<open>_handle\<close>, \<open>_real_handle\<close> and \<open>_crypto\<close> (\<open>None\<close> until a key is loaded).\<close>

record GearboxEncryptedBigFile =
  handle :: buffer
  real_handle :: "buffer option"
  crypto :: "GearboxCrypt option"

text \<open>The property \<open>data_size\<close> returns \<open>self._crypto._data_size\<close>; on \<open>None\<close> the
  attribute access raises \<open>AttributeError\<close>.\<close>

definition big_data_size :: "GearboxEncryptedBigFile \<Rightarrow> error + int" where
  "big_data_size self = (case crypto self of None \<Rightarrow> Inl AttributeError | Some c \<Rightarrow> Inr (data_size c))"

text \<open>Modelled from the spec: \<open>FileInFile\<close> comes from \<open>naabal.util.file_io\<close>, which is
  not among the sources. The specification describes it as a bounded sub-file view: given
  a parent handle, a start offset and a length, a file-like read/seek/tell surface
  scoped to that byte range.\<close>

definition FileInFile :: "buffer \<Rightarrow> int \<Rightarrow> int \<Rightarrow> buffer" where
  "FileInFile parent start len =
     \<lparr>contents = take (nat len) (drop (nat start) (contents parent)), position = 0\<rparr>"

text \<open>\<open>GearboxEncryptedBigFile.load\<close>. Its last statement calls \<open>BigFile.load\<close>, which
  runs the record framework over the \<open>STRUCTURE\<close> of a concrete format; that
  continuation is the parameter \<open>super_load\<close>. A method that may raise returns the
  exception, if any, next to the object as it is left.\<close>

definition GearboxEncryptedBigFile_load ::
  "byte list \<Rightarrow> (GearboxEncryptedBigFile \<Rightarrow> error option \<times> GearboxEncryptedBigFile) \<Rightarrow>
   GearboxEncryptedBigFile \<Rightarrow> error option \<times> GearboxEncryptedBigFile" where
  "GearboxEncryptedBigFile_load MASTER_KEY super_load self =
     (case load_encryption MASTER_KEY (handle self) of
        (Inl e, h) \<Rightarrow> (Some e, self\<lparr>handle := h\<rparr>)
      | (Inr c, h) \<Rightarrow>
          (let self1 = self\<lparr>handle := h, crypto := Some c\<rparr>;
               self2 = self1\<lparr>real_handle := Some (handle self1)\<rparr>
           in super_load (self2\<lparr>handle := FileInFile (handle self1) 0 (data_size c)\<rparr>)))"

text \<open>\<open>_read_encrypted(size)\<close>: \<open>offset = self.tell()\<close>, then
  \<open>self._crypto.decrypt(self._handle.read(size), offset)\<close>.\<close>

definition read_encrypted ::
  "GearboxEncryptedBigFile \<Rightarrow> int \<Rightarrow> (error + byte list) \<times> GearboxEncryptedBigFile" where
  "read_encrypted self sz =
     (let off = file_tell (handle self);
          r = file_read (handle self) sz
      in case crypto self of
           None \<Rightarrow> (Inl AttributeError, self\<lparr>handle := snd r\<rparr>)
         | Some c \<Rightarrow> (decrypt c (fst r) off, self\<lparr>handle := snd r\<rparr>))"

text \<open>\<open>GearboxEncryptedBigFile.read(size=None)\<close>. The test \<open>self.data_size is None\<close>
  evaluates the property first, so without a cipher it raises; with a cipher the data
  size is an integer and the test is false. At or past the data size the argument goes
  to \<open>self._handle.read\<close> as it is, and the file object of Python 2 requires an
  integer there: \<open>read(None)\<close> raises \<open>TypeError\<close>.\<close>

definition read ::
  "GearboxEncryptedBigFile \<Rightarrow> int option \<Rightarrow> (error + byte list) \<times> GearboxEncryptedBigFile" where
  "read self sz =
     (case big_data_size self of
        Inl e \<Rightarrow> (Inl e, self)
      | Inr dsize \<Rightarrow>
          (let cur_pos = file_tell (handle self)
           in if cur_pos < dsize then
                read_encrypted self
                  (case sz of
                     None \<Rightarrow> dsize - cur_pos
                   | Some n \<Rightarrow> if cur_pos + n > dsize then dsize - cur_pos else n)
              else (case sz of
                      None \<Rightarrow> (Inl TypeError, self)
                    | Some n \<Rightarrow>
                        (let r = file_read (handle self) n
                         in (Inr (fst r), self\<lparr>handle := snd r\<rparr>)))))"

section \<open>naabal.formats.big: archive members\<close>

text \<open>Modification times: \<open>timestamp_to_datetime\<close> comes from \<open>naabal.util\<close> and is not
  among the sources; it is a parameter of \<open>ExternalBigInfo_load\<close>, and a datetime is
  represented by an integer.\<close>

type_synonym datetime = int

record stat =
  st_mtime :: int
  st_size :: int

text \<open>A loaded \<open>BigInfo\<close>; \<open>real_filename\<close> is set for an \<open>ExternalBigInfo\<close> only.
  \<open>bigfile\<close> identifies the archive object the member was created for.\<close>

record BigInfo =
  bigfile :: nat
  offset :: int
  name :: string
  mtime :: datetime
  real_size :: int
  stored_size :: int
  real_filename :: "string option"

definition is_compressed :: "BigInfo \<Rightarrow> bool" where
  "is_compressed m = (real_size m > stored_size m)"

text \<open>The argument \<open>file\<close> of \<open>ExternalBigInfo.load\<close>: an object with a \<open>read\<close>
  attribute, whose \<open>name\<close> is taken, or a path.\<close>

datatype file_arg = FileObject string | Path string

text \<open>\<open>ExternalBigInfo(bigfile).load(file, alt_filename)\<close>. When \<open>alt_filename\<close> is
  \<open>None\<close> the method evaluates the name \<open>filename\<close>, which is bound nowhere, and
  raises \<open>NameError\<close>. \<open>os.stat\<close> raises \<open>OSError\<close> for a path that the file
  system, a partial map from paths to their status, does not have.\<close>

definition ExternalBigInfo_load ::
  "(int \<Rightarrow> datetime) \<Rightarrow> (string \<rightharpoonup> stat) \<Rightarrow> nat \<Rightarrow> file_arg \<Rightarrow> string option \<Rightarrow> error + BigInfo" where
  "ExternalBigInfo_load timestamp_to_datetime fs self_bigfile file alt_filename =
     (let real_fn = (case file of FileObject n \<Rightarrow> n | Path p \<Rightarrow> p)
      in case alt_filename of
           None \<Rightarrow> Inl NameError
         | Some alt \<Rightarrow>
             (case fs real_fn of
                None \<Rightarrow> Inl OSError
              | Some fstat \<Rightarrow>
                  Inr \<lparr>bigfile = self_bigfile, offset = 0, name = alt,
                       mtime = timestamp_to_datetime (st_mtime fstat),
                       real_size = st_size fstat, stored_size = st_size fstat,
                       real_filename = Some real_fn\<rparr>))"

text \<open>\<open>BigFile.get_biginfo(filename, alt_filename=None)\<close>.\<close>

definition get_biginfo ::
  "(int \<Rightarrow> datetime) \<Rightarrow> (string \<rightharpoonup> stat) \<Rightarrow> nat \<Rightarrow> file_arg \<Rightarrow> string option \<Rightarrow> error + BigInfo" where
  "get_biginfo timestamp_to_datetime fs self filename alt_filename =
     ExternalBigInfo_load timestamp_to_datetime fs self filename alt_filename"

section \<open>naabal.formats.big: the member list of an archive\<close>

text \<open>
  \<open>BigFile._members = []\<close> is an attribute of the class: one list object, created when
  the class is. \<open>self._members\<close> reads the instance's own attribute when the instance
  has one (\<open>load\<close> assigns it) and the class attribute otherwise, and \<open>add\<close> and
  \<open>_sort_members\<close> change the list object in place. So the member lists live in a store
  of list objects, and every archive object has an optional reference of its own.
\<close>

record world =
  list_objects :: "nat \<Rightarrow> BigInfo list"
  members_attr :: "nat \<Rightarrow> nat option"

text \<open>The list object of the class attribute, and the state in which no archive has been
  loaded or added to.\<close>

definition class_members :: nat where
  "class_members = 0"

definition initial_world :: world where
  "initial_world = \<lparr>list_objects = (\<lambda>r. []), members_attr = (\<lambda>obj. None)\<rparr>"

definition members_ref :: "world \<Rightarrow> nat \<Rightarrow> nat" where
  "members_ref w self = (case members_attr w self of Some r \<Rightarrow> r | None \<Rightarrow> class_members)"

definition get_members :: "world \<Rightarrow> nat \<Rightarrow> BigInfo list" where
  "get_members w self = list_objects w (members_ref w self)"

definition get_filenames :: "world \<Rightarrow> nat \<Rightarrow> string list" where
  "get_filenames w self = map name (get_members w self)"

text \<open>\<open>self._members.sort(key=lambda m: m.name)\<close>: a stable sort by name, strings
  compared bytewise and lexicographically.\<close>

definition sort_members :: "world \<Rightarrow> nat \<Rightarrow> world" where
  "sort_members w self =
     w\<lparr>list_objects := (list_objects w)(members_ref w self := sort_key name (list_objects w (members_ref w self)))\<rparr>"

text \<open>\<open>BigFile.add(biginfo, sort_after=True)\<close>.\<close>

definition add :: "world \<Rightarrow> nat \<Rightarrow> BigInfo \<Rightarrow> bool \<Rightarrow> world" where
  "add w self biginfo sort_after =
     (let w1 = w\<lparr>list_objects := (list_objects w)(members_ref w self := list_objects w (members_ref w self) @ [biginfo])\<rparr>
      in if sort_after then sort_members w1 self else w1)"

text \<open>\<open>BigFile.load\<close>: after the record framework has run, \<open>self._members =
  self._get_members()\<close> and \<open>self._sort_members()\<close>. \<open>_get_members\<close> is left to the
  concrete formats; the list object it returns (its reference \<open>r\<close> and its elements
  \<open>ms\<close>) is a parameter.\<close>

definition BigFile_load :: "world \<Rightarrow> nat \<Rightarrow> nat \<Rightarrow> BigInfo list \<Rightarrow> world" where
  "BigFile_load w self r ms =
     sort_members (w\<lparr>list_objects := (list_objects w)(r := ms), members_attr := (members_attr w)(self \<mapsto> r)\<rparr>) self"

text \<open>\<open>os.path.join\<close> of two components (POSIX) and \<open>str.replace(old, '', 1)\<close>, which
  removes the first occurrence of \<open>old\<close>.\<close>

definition path_join :: "string \<Rightarrow> string \<Rightarrow> string" where
  "path_join a b =
     (if b \<noteq> [] \<and> hd b = CHR ''/'' then b
      else if a = [] \<or> last a = CHR ''/'' then a @ b
      else a @ ''/'' @ b)"

fun remove_first :: "string \<Rightarrow> string \<Rightarrow> string" where
  "remove_first old [] = []"
| "remove_first old (c # cs) =
     (if take (length old) (c # cs) = old then drop (length old) (c # cs)
      else c # remove_first old cs)"

text \<open>\<open>BigFile.add_all(path='', exclude=None)\<close>. \<open>os.walk\<close> is the directory walker;
  the triples \<open>(dirpath, dirnames, filenames)\<close> it yields for \<open>path\<close> are the parameter
  \<open>walk\<close>. The inner loop adds every file that is not excluded, unsorted; the one sort
  follows the loops. A method that may raise returns the exception, if any, next to the
  state it leaves: when \<open>os.stat\<close> raises inside \<open>get_biginfo\<close>, the members appended
  so far stay in the list and the sort is not reached.\<close>

fun add_files ::
  "(int \<Rightarrow> datetime) \<Rightarrow> (string \<rightharpoonup> stat) \<Rightarrow> world \<Rightarrow> nat \<Rightarrow> string \<Rightarrow> (string \<Rightarrow> bool) \<Rightarrow>
   string list \<Rightarrow> error option \<times> world" where
  "add_files ts fs w self path exclude [] = (None, w)"
| "add_files ts fs w self path exclude (filename # filenames) =
     (if \<not> exclude filename then
        (case get_biginfo ts fs self (Path filename) (Some (remove_first path filename)) of
           Inl e \<Rightarrow> (Some e, w)
         | Inr biginfo \<Rightarrow> add_files ts fs (add w self biginfo False) self path exclude filenames)
      else add_files ts fs w self path exclude filenames)"

fun add_dirs ::
  "(int \<Rightarrow> datetime) \<Rightarrow> (string \<rightharpoonup> stat) \<Rightarrow> world \<Rightarrow> nat \<Rightarrow> string \<Rightarrow> (string \<Rightarrow> bool) \<Rightarrow>
   (string \<times> string list \<times> string list) list \<Rightarrow> error option \<times> world" where
  "add_dirs ts fs w self path exclude [] = (None, w)"
| "add_dirs ts fs w self path exclude ((dirpath, dirnames, filenames) # rest) =
     (case add_files ts fs w self path exclude (map (path_join dirpath) filenames) of
        (Some e, w') \<Rightarrow> (Some e, w')
      | (None, w') \<Rightarrow> add_dirs ts fs w' self path exclude rest)"

definition add_all ::
  "(int \<Rightarrow> datetime) \<Rightarrow> (string \<rightharpoonup> stat) \<Rightarrow> world \<Rightarrow> nat \<Rightarrow> string \<Rightarrow> (string \<Rightarrow> bool) option \<Rightarrow>
   (string \<times> string list \<times> string list) list \<Rightarrow> error option \<times> world" where
  "add_all ts fs w self path exclude walk =
     (let excl = (case exclude of None \<Rightarrow> (\<lambda>fn. False) | Some f \<Rightarrow> f)
      in case add_dirs ts fs w self path excl walk of
           (Some e, w') \<Rightarrow> (Some e, w')
         | (None, w') \<Rightarrow> (None, sort_members w' self))"

subsection \<open>Sequences of calls\<close>

text \<open>A call of \<open>add\<close> with the default \<open>sort_after\<close>, or a call of \<open>add_all\<close> with its
  path, exclusion predicate and the walk of the directory tree. A sequence of calls runs
  until a call raises. \<open>walked_files\<close> are the files a call passes to \<open>os.stat\<close>, and
  \<open>added_names\<close> the names of the members it adds when every one of them exists.\<close>

datatype call =
    Add BigInfo
  | AddAll string "(string \<Rightarrow> bool) option" "(string \<times> string list \<times> string list) list"

fun run_calls ::
  "(int \<Rightarrow> datetime) \<Rightarrow> (string \<rightharpoonup> stat) \<Rightarrow> world \<Rightarrow> nat \<Rightarrow> call list \<Rightarrow> error option \<times> world" where
  "run_calls ts fs w self [] = (None, w)"
| "run_calls ts fs w self (Add biginfo # cs) = run_calls ts fs (add w self biginfo True) self cs"
| "run_calls ts fs w self (AddAll path exclude walk # cs) =
     (case add_all ts fs w self path exclude walk of
        (Some e, w') \<Rightarrow> (Some e, w')
      | (None, w') \<Rightarrow> run_calls ts fs w' self cs)"

fun walked_files :: "call \<Rightarrow> string list" where
  "walked_files (Add biginfo) = []"
| "walked_files (AddAll path exclude walk) =
     filter (\<lambda>fn. \<not> (case exclude of None \<Rightarrow> False | Some f \<Rightarrow> f fn))
       (concat (map (\<lambda>(dirpath, dirnames, filenames). map (path_join dirpath) filenames) walk))"

fun added_names :: "call \<Rightarrow> string list" where
  "added_names (Add biginfo) = [name biginfo]"
| "added_names (AddAll path exclude walk) =
     map (remove_first path) (walked_files (AddAll path exclude walk))"

section \<open>Archives for concrete runs\<close>

text \<open>Sixteen payload bytes followed by a trailer. \<open>sample_archive\<close> has the marker
  0, the key length 4, the local key \<open>01 00 00 00\<close> and the back pointer 14;
  \<open>short_key_archive\<close> declares 8 key bytes where only the 4 bytes of the back pointer
  follow; \<open>bad_marker_archive\<close> has the marker 1; \<open>zero_archive\<close> is sixteen zero
  bytes, so its back pointer is 0. \<open>opened\<close> is the archive object over such a file
  before \<open>load\<close>, and \<open>no_structure\<close> the framework continuation of a format with an
  empty \<open>STRUCTURE\<close>.\<close>

definition sample_archive :: "byte list" where
  "sample_archive =
     [80, 65, 89, 76, 79, 65, 68, 32, 98, 121, 116, 101, 115, 32, 35, 49,
      0, 0, 0, 0, 4, 0, 1, 0, 0, 0, 14, 0, 0, 0]"

definition short_key_archive :: "byte list" where
  "short_key_archive =
     [80, 65, 89, 76, 79, 65, 68, 32, 98, 121, 116, 101, 115, 32, 35, 49,
      0, 0, 0, 0, 8, 0, 10, 0, 0, 0]"

definition bad_marker_archive :: "byte list" where
  "bad_marker_archive =
     [80, 65, 89, 76, 79, 65, 68, 32, 98, 121, 116, 101, 115, 32, 35, 49,
      1, 0, 0, 0, 4, 0, 1, 0, 0, 0, 14, 0, 0, 0]"

definition zero_archive :: "byte list" where
  "zero_archive = [0, 0, 0, 0, 0, 0, 0, 0, 0, 0, 0, 0, 0, 0, 0, 0]"

definition opened :: "byte list \<Rightarrow> GearboxEncryptedBigFile" where
  "opened bs = \<lparr>handle = \<lparr>contents = bs, position = 0\<rparr>, real_handle = None, crypto = None\<rparr>"

definition no_structure :: "GearboxEncryptedBigFile \<Rightarrow> error option \<times> GearboxEncryptedBigFile" where
  "no_structure self = (None, self)"

text \<open>A file system with two files under \<open>root\<close>, and a sequence of calls on it: one
  \<open>add\<close> and one \<open>add_all\<close> over \<open>root\<close> and its subdirectory.\<close>

definition sample_fs :: "string \<rightharpoonup> stat" where
  "sample_fs =
     [''root/z.txt'' \<mapsto> \<lparr>st_mtime = 5, st_size = 100\<rparr>,
      ''root/sub/b.txt'' \<mapsto> \<lparr>st_mtime = 6, st_size = 7\<rparr>]"

text \<open>A member with a given name, for concrete member lists.\<close>

definition member :: "string \<Rightarrow> BigInfo" where
  "member n = \<lparr>bigfile = 1, offset = 0, name = n, mtime = 0, real_size = 0, stored_size = 0,
               real_filename = None\<rparr>"

definition sample_calls :: "call list" where
  "sample_calls =
     [Add (member ''c.txt''),
      AddAll ''root'' None [(''root'', [''sub''], [''z.txt'']), (''root/sub'', [], [''b.txt''])]]"

section \<open>Properties of the cipher\<close>

subsection \<open>The combined key has the length of the local key\<close>

lemma bytearray_set_length: "bytearray_set xs i v = Inr ys \<Longrightarrow> length ys = length xs"
  by (auto simp: bytearray_set_def split: option.splits if_splits)

lemma sub_rounds_length:
  "sub_rounds dsize gk i bs (k, c) = Inr (k', c') \<Longrightarrow> length k' = length k"
proof (induction bs arbitrary: k c)
  case Nil
  then show ?case by simp
next
  case (Cons b bs)
  then show ?case
    by (auto split: sum.splits dest: bytearray_set_length)
qed

lemma key_blocks_length:
  "key_blocks dsize lk gk idxs k = Inr k' \<Longrightarrow> length k' = length k"
proof (induction idxs arbitrary: k)
  case Nil
  then show ?case by simp
next
  case (Cons i idxs)
  then show ?case
    by (auto split: sum.splits dest: sub_rounds_length)
qed

lemma combine_keys_length: "combine_keys n dsize lk gk = Inr k \<Longrightarrow> length k = n"
  by (auto simp: combine_keys_def split: sum.splits dest: key_blocks_length)

lemma GearboxCrypt_init_fields:
  assumes "GearboxCrypt_init dsize lk gk cs = Inr g"
  shows "key_size g = length lk" and "length (encryption_key g) = length lk"
    and "data_size g = dsize" and "chunk_size g = cs"
  using assms by (auto simp: GearboxCrypt_init_def split: sum.splits dest: combine_keys_length)

lemma byte_of_masked: "(word_of_int (255 AND x) :: byte) = word_of_int x"
proof -
  have "(255::int) = mask 8" by (simp add: mask_eq_exp_minus_1)
  then have "255 AND x = take_bit 8 x" by (simp add: take_bit_eq_mask and.commute)
  then show ?thesis by (simp add: word_of_int_eq_iff)
qed

lemma uint_byte_of_masked: "uint (word_of_int (255 AND x) :: byte) = x mod 256"
  by (simp add: byte_of_masked uint_word_of_int)

lemma list_index_in_range: "0 \<le> i \<Longrightarrow> i < int (length xs) \<Longrightarrow> list_index xs i = Inr (xs ! nat i)"
  by (simp add: list_index_def seq_position_def)

lemma key_stream_valid:
  assumes "0 < key_size g" and "length (encryption_key g) = key_size g"
  shows "key_stream g n s =
    map (\<lambda>k. Inr (encryption_key g ! nat ((s + int k) mod int (key_size g)))) [0..<n]"
proof -
  have "list_index (encryption_key g) (i mod int (key_size g)) =
        Inr (encryption_key g ! nat (i mod int (key_size g)))" for i
    using assms by (intro list_index_in_range) simp_all
  then show ?thesis using assms by (simp add: key_stream_def Let_def)
qed

lemma izip_bytes_Inr:
  "length ks = length d \<Longrightarrow>
   izip_bytes f d (map Inr ks) = Inr (map2 (\<lambda>c k. word_of_int (f (uint c) (uint k))) d ks)"
  by (induction ks d rule: list_induct2) auto

lemma key_stream_add:
  "key_stream g (m + n) s = key_stream g m s @ key_stream g n (s + int m)"
proof -
  have "[0..<m + n] = [0..<m] @ map (\<lambda>k. k + m) [0..<n]"
    by (metis add.commute map_add_upt upt_add_eq_append zero_le)
  then show ?thesis
    by (simp add: key_stream_def o_def ac_simps)
qed

lemma length_key_stream: "length (key_stream g n s) = n"
  by (simp add: key_stream_def)

lemma izip_bytes_append:
  "length ks1 = length xs \<Longrightarrow>
   izip_bytes f (xs @ ys) (ks1 @ ks2) =
     (case izip_bytes f xs ks1 of
        Inl e \<Rightarrow> Inl e
      | Inr a \<Rightarrow> (case izip_bytes f ys ks2 of Inl e \<Rightarrow> Inl e | Inr b \<Rightarrow> Inr (a @ b)))"
proof (induction ks1 xs rule: list_induct2)
  case Nil
  then show ?case by (simp split: sum.splits)
next
  case (Cons k ks1 x xs)
  then show ?case by (simp split: sum.splits)
qed


lemma izip_bytes_length:
  "izip_bytes f d ks = Inr r \<Longrightarrow> length r = min (length d) (length ks)"
  by (induction f d ks arbitrary: r rule: izip_bytes.induct) (auto split: sum.splits)

lemma decrypt_length: "decrypt g d off = Inr r \<Longrightarrow> length r = length d"
  by (auto simp: decrypt_def length_key_stream dest: izip_bytes_length)

lemma encrypt_length: "encrypt g d off = Inr r \<Longrightarrow> length r = length d"
  by (auto simp: encrypt_def length_key_stream dest: izip_bytes_length)

lemma decrypt_append:
  "decrypt g (xs @ ys) off =
     (case decrypt g xs off of
        Inl e \<Rightarrow> Inl e
      | Inr a \<Rightarrow> (case decrypt g ys (off + int (length xs)) of
                    Inl e \<Rightarrow> Inl e | Inr b \<Rightarrow> Inr (a @ b)))"
  by (simp add: decrypt_def key_stream_add izip_bytes_append length_key_stream cong: sum.case_cong)

lemma encrypt_append:
  "encrypt g (xs @ ys) off =
     (case encrypt g xs off of
        Inl e \<Rightarrow> Inl e
      | Inr a \<Rightarrow> (case encrypt g ys (off + int (length xs)) of
                    Inl e \<Rightarrow> Inl e | Inr b \<Rightarrow> Inr (a @ b)))"
  by (simp add: encrypt_def key_stream_add izip_bytes_append length_key_stream cong: sum.case_cong)

lemma decrypt_chunk_size: "decrypt (g\<lparr>chunk_size := c\<rparr>) d off = decrypt g d off"
  by (simp add: decrypt_def key_stream_def cong: if_cong)

lemma encrypt_chunk_size: "encrypt (g\<lparr>chunk_size := c\<rparr>) d off = encrypt g d off"
  by (simp add: encrypt_def key_stream_def cong: if_cong)

subsection \<open>Streaming is a single call on the remaining input\<close>

lemma drop_length_take: "drop (length (take n xs)) xs = drop n xs"
  by (cases "n \<le> length xs") (simp_all add: min_def)

lemma file_read_some:
  "0 \<le> n \<Longrightarrow> file_read inp n =
     (take (nat n) (drop (position inp) (contents inp)),
      inp\<lparr>position := position inp + length (take (nat n) (drop (position inp) (contents inp)))\<rparr>)"
  by (simp add: file_read_def Let_def)

lemma decrypt_loop_step:
  "chunk \<noteq> [] \<Longrightarrow> decrypt_loop g chunk inp out off =
     (case decrypt g chunk off of
        Inl e \<Rightarrow> Inl e
      | Inr plain \<Rightarrow>
          decrypt_loop g (fst (file_read inp (chunk_size g)))
            (snd (file_read inp (chunk_size g))) (out @ plain)
            (off + int (length chunk)))"
  by (subst decrypt_loop.simps) simp

lemma decrypt_loop_stop: "decrypt_loop g [] inp out off = Inr (inp, out)"
  by (subst decrypt_loop.simps) simp

lemma decrypt_loop_whole:
  assumes "0 < chunk_size g"
  shows "decrypt_loop g (fst (file_read inp (chunk_size g)))
           (snd (file_read inp (chunk_size g))) out off =
         (case decrypt g (drop (position inp) (contents inp)) off of
            Inl e \<Rightarrow> Inl e
          | Inr bs \<Rightarrow>
              Inr (inp\<lparr>position := position inp + length (drop (position inp) (contents inp))\<rparr>,
                   out @ bs))"
proof (induction "length (contents inp) - position inp" arbitrary: inp out off rule: less_induct)
  case less
  define rest where "rest = drop (position inp) (contents inp)"
  define chunk where "chunk = take (nat (chunk_size g)) rest"
  define rest' where "rest' = drop (nat (chunk_size g)) rest"
  define inp' where "inp' = inp\<lparr>position := position inp + length chunk\<rparr>"
  have rd: "file_read inp (chunk_size g) = (chunk, inp')"
    using assms by (simp add: file_read_some rest_def chunk_def inp'_def)
  have split: "rest = chunk @ rest'"
    by (simp add: chunk_def rest'_def)
  show ?case
  proof (cases "rest = []")
    case True
    then have "chunk = []" by (simp add: chunk_def)
    with True show ?thesis
      by (simp add: rd rest_def [symmetric] inp'_def decrypt_def decrypt_loop_stop)
  next
    case False
    then have ne: "chunk \<noteq> []" using assms by (simp add: chunk_def)
    have lt: "length (contents inp') - position inp' < length (contents inp) - position inp"
      using ne False by (auto simp: inp'_def chunk_def rest_def)
    have drop': "drop (position inp') (contents inp') = rest'"
    proof -
      have "drop (position inp') (contents inp') = drop (length chunk) rest"
        by (simp add: inp'_def rest_def add.commute)
      also have "\<dots> = rest'"
        unfolding chunk_def rest'_def by (rule drop_length_take)
      finally show ?thesis .
    qed
    have pos': "position inp' + length rest' = position inp + length rest"
    proof -
      have "length rest = length chunk + length rest'"
        using arg_cong [OF split, of length] by simp
      then show ?thesis by (simp add: inp'_def)
    qed
    have IH: "decrypt_loop g (fst (file_read inp' (chunk_size g)))
                (snd (file_read inp' (chunk_size g))) out2 off2 =
              (case decrypt g rest' off2 of
                 Inl e \<Rightarrow> Inl e
               | Inr bs \<Rightarrow> Inr (inp\<lparr>position := position inp + length rest\<rparr>, out2 @ bs))"
      for out2 off2
    proof -
      have "inp'\<lparr>position := position inp' + length rest'\<rparr> =
            inp\<lparr>position := position inp + length rest\<rparr>"
        by (simp only: pos') (simp add: inp'_def)
      then show ?thesis
        using less [OF lt, of out2 off2] by (simp only: drop')
    qed
    have "decrypt_loop g chunk inp' out off =
          (case decrypt g chunk off of
             Inl e \<Rightarrow> Inl e
           | Inr plain \<Rightarrow>
               (case decrypt g rest' (off + int (length chunk)) of
                  Inl e \<Rightarrow> Inl e
                | Inr bs \<Rightarrow>
                    Inr (inp\<lparr>position := position inp + length rest\<rparr>, (out @ plain) @ bs)))"
      by (simp only: decrypt_loop_step [OF ne] IH)
    also have "\<dots> =
          (case decrypt g rest off of
             Inl e \<Rightarrow> Inl e
           | Inr bs \<Rightarrow> Inr (inp\<lparr>position := position inp + length rest\<rparr>, out @ bs))"
      by (simp only: split decrypt_append) (simp split: sum.splits)
    finally show ?thesis by (simp only: rd fst_conv snd_conv rest_def)
  qed
qed

lemma encrypt_loop_step:
  "chunk \<noteq> [] \<Longrightarrow> encrypt_loop g chunk inp out off =
     (case encrypt g chunk off of
        Inl e \<Rightarrow> Inl e
      | Inr cipher \<Rightarrow>
          encrypt_loop g (fst (file_read inp (chunk_size g)))
            (snd (file_read inp (chunk_size g))) (out @ cipher)
            (off + int (length chunk)))"
  by (subst encrypt_loop.simps) simp

lemma encrypt_loop_stop: "encrypt_loop g [] inp out off = Inr (inp, out)"
  by (subst encrypt_loop.simps) simp


lemma encrypt_loop_whole:
  assumes "0 < chunk_size g"
  shows "encrypt_loop g (fst (file_read inp (chunk_size g)))
           (snd (file_read inp (chunk_size g))) out off =
         (case encrypt g (drop (position inp) (contents inp)) off of
            Inl e \<Rightarrow> Inl e
          | Inr bs \<Rightarrow>
              Inr (inp\<lparr>position := position inp + length (drop (position inp) (contents inp))\<rparr>,
                   out @ bs))"
proof (induction "length (contents inp) - position inp" arbitrary: inp out off rule: less_induct)
  case less
  define rest where "rest = drop (position inp) (contents inp)"
  define chunk where "chunk = take (nat (chunk_size g)) rest"
  define rest' where "rest' = drop (nat (chunk_size g)) rest"
  define inp' where "inp' = inp\<lparr>position := position inp + length chunk\<rparr>"
  have rd: "file_read inp (chunk_size g) = (chunk, inp')"
    using assms by (simp add: file_read_some rest_def chunk_def inp'_def)
  have split: "rest = chunk @ rest'"
    by (simp add: chunk_def rest'_def)
  show ?case
  proof (cases "rest = []")
    case True
    then have "chunk = []" by (simp add: chunk_def)
    with True show ?thesis
      by (simp add: rd rest_def [symmetric] inp'_def encrypt_def encrypt_loop_stop)
  next
    case False
    then have ne: "chunk \<noteq> []" using assms by (simp add: chunk_def)
    have lt: "length (contents inp') - position inp' < length (contents inp) - position inp"
      using ne False by (auto simp: inp'_def chunk_def rest_def)
    have drop': "drop (position inp') (contents inp') = rest'"
    proof -
      have "drop (position inp') (contents inp') = drop (length chunk) rest"
        by (simp add: inp'_def rest_def add.commute)
      also have "\<dots> = rest'"
        unfolding chunk_def rest'_def by (rule drop_length_take)
      finally show ?thesis .
    qed
    have pos': "position inp' + length rest' = position inp + length rest"
    proof -
      have "length rest = length chunk + length rest'"
        using arg_cong [OF split, of length] by simp
      then show ?thesis by (simp add: inp'_def)
    qed
    have IH: "encrypt_loop g (fst (file_read inp' (chunk_size g)))
                (snd (file_read inp' (chunk_size g))) out2 off2 =
              (case encrypt g rest' off2 of
                 Inl e \<Rightarrow> Inl e
               | Inr bs \<Rightarrow> Inr (inp\<lparr>position := position inp + length rest\<rparr>, out2 @ bs))"
      for out2 off2
    proof -
      have "inp'\<lparr>position := position inp' + length rest'\<rparr> =
            inp\<lparr>position := position inp + length rest\<rparr>"
        by (simp only: pos') (simp add: inp'_def)
      then show ?thesis
        using less [OF lt, of out2 off2] by (simp only: drop')
    qed
    have "encrypt_loop g chunk inp' out off =
          (case encrypt g chunk off of
             Inl e \<Rightarrow> Inl e
           | Inr plain \<Rightarrow>
               (case encrypt g rest' (off + int (length chunk)) of
                  Inl e \<Rightarrow> Inl e
                | Inr bs \<Rightarrow>
                    Inr (inp\<lparr>position := position inp + length rest\<rparr>, (out @ plain) @ bs)))"
      by (simp only: encrypt_loop_step [OF ne] IH)
    also have "\<dots> =
          (case encrypt g rest off of
             Inl e \<Rightarrow> Inl e
           | Inr bs \<Rightarrow> Inr (inp\<lparr>position := position inp + length rest\<rparr>, out @ bs))"
      by (simp only: split encrypt_append) (simp split: sum.splits)
    finally show ?thesis by (simp only: rd fst_conv snd_conv rest_def)
  qed
qed

subsection \<open>Evaluating the key schedule on the identity table\<close>

lemma take_drop_concat4:
  "\<forall>x\<in>set xss. length x = 4 \<Longrightarrow> k < length xss \<Longrightarrow>
   take 4 (drop (k * 4) (concat xss)) = xss ! k"
proof (induction xss arbitrary: k)
  case Nil
  then show ?case by simp
next
  case (Cons x xss)
  show ?case
  proof (cases k)
    case 0
    with Cons.prems show ?thesis by simp
  next
    case (Suc j)
    with Cons show ?thesis by simp
  qed
qed

lemma length_concat4: "\<forall>x\<in>set xss. length x = 4 \<Longrightarrow> length (concat xss) = 4 * length xss"
  by (induction xss) simp_all

lemma split_by_concat4:
  assumes "\<forall>x\<in>set xss. length x = 4"
  shows "split_by (concat xss) 4 = Inr xss"
proof -
  have n: "(3 + length (concat xss)) div 4 = length xss"
    using length_concat4 [OF assms] by simp
  have "map (\<lambda>k. take 4 (drop (k * 4) (concat xss))) [0..<length xss] = map ((!) xss) [0..<length xss]"
    using assms by (intro map_cong) (simp_all add: take_drop_concat4)
  then show ?thesis
    by (simp add: split_by_def n map_nth)
qed


lemma identity_table_words:
  "map COMBINE_BYTES (map (\<lambda>k. [of_nat k, 0, 0, 0]) [0..<256]) = table_words"
proof -
  have "COMBINE_BYTES [of_nat k, 0, 0, 0] = int k" if "k < 256" for k
  proof -
    have "uint (of_nat k :: byte) = int k"
      using that by (simp add: uint_nat unat_of_nat take_bit_nat_eq_self)
    then show ?thesis by (simp add: COMBINE_BYTES_def)
  qed
  then show ?thesis by (simp add: table_words_def)
qed

lemma split_by_identity_table:
  "split_by identity_table 4 = Inr (map (\<lambda>k. [of_nat k, 0, 0, 0]) [0..<256])"
  unfolding identity_table_def by (rule split_by_concat4) simp

lemma table_words_index:
  "0 \<le> i \<Longrightarrow> i < 256 \<Longrightarrow> list_index table_words i = Inr i"
  by (simp add: list_index_def seq_position_def table_words_def)

lemma upt4: "[0..<4] = [0, 1, 2, 3]"
  by (simp add: upt_rec)

lemma list_index_Cons_0: "list_index (x # xs) 0 = Inr x"
  by (simp add: list_index_def seq_position_def)

lemma list_index_Cons_pos: "0 < i \<Longrightarrow> list_index (x # xs) i = list_index xs (i - 1)"
  by (auto simp: list_index_def seq_position_def nat_diff_distrib' nth_Cons split: nat.splits)

lemma combine_keys_table:
  "combine_keys n dsize lk identity_table =
     (case split_by lk 4 of
        Inl e \<Rightarrow> Inl e
      | Inr lchunks \<Rightarrow>
          key_blocks dsize (map COMBINE_BYTES lchunks) table_words (xrange4 n) (replicate n 0))"
  unfolding combine_keys_def split_by_identity_table
  by (simp only: sum.case identity_table_words)

lemma replicate4: "replicate 4 x = [x, x, x, x]"
  by (simp add: numeral_eq_Suc)

lemma update4:
  "[a, b, c, d][0 := x] = [x, b, c, d]"
  "[a, b, c, d][Suc 0 := x] = [a, x, c, d]"
  "[a, b, c, d][2 := x] = [a, b, x, d]"
  "[a, b, c, d][3 := x] = [a, b, c, x]"
  by (simp_all add: numeral_2_eq_2 numeral_3_eq_3)

lemmas key_eval =
  combine_keys_table xrange4_def replicate4 update4
  key_blocks.simps sub_rounds.simps inner_rounds.simps upt4
  list_index_Cons_0 list_index_Cons_pos table_words_index
  SPLIT_TO_BYTES_def ROTL_def CAST_TO_CHAR_def COMBINE_BYTES_def bytearray_set_def
  seq_position_def Let_def

lemma split_by_4: "split_by [a, b, c, d] 4 = Inr [[a, b, c, d]]"
  by (simp add: split_by_def)

lemma sample_key: "combine_keys 4 16 [1, 0, 0, 0] identity_table = Inr [16, 48, 112, 240]"
  by (simp add: key_eval split_by_4)

lemma overflow_key: "combine_keys 4 16 [240, 255, 255, 255] identity_table = Inr [14, 16, 48, 112]"
  by (simp add: key_eval split_by_4)

lemma empty_key: "combine_keys 0 0 [] identity_table = Inr []"
  by (simp add: key_eval split_by_def)

lemma spec_block4:
  "spec_block d t c 4 =
     (let c1 = spec_sub_round d t c; c2 = spec_sub_round d t c1;
          c3 = spec_sub_round d t c2; c4 = spec_sub_round d t c3
      in [word_of_int (c1 mod 256), word_of_int (c2 mod 256),
          word_of_int (c3 mod 256), word_of_int (c4 mod 256)])"
  by (simp add: numeral_eq_Suc Let_def)

lemma table_words_nth: "k < 256 \<Longrightarrow> table_words ! k = int k"
  by (simp add: table_words_def)

lemmas spec_round_eval =
  spec_sub_round_def spec_decompose_def spec_inner_round_def rotate_left32_def table_words_nth

lemma spec_overflow_rounds:
  "spec_sub_round 16 table_words 4294967280 = 15"
  "spec_sub_round 16 table_words 15 = 16"
  "spec_sub_round 16 table_words 16 = 48"
  "spec_sub_round 16 table_words 48 = 112"
  by (simp_all add: spec_round_eval)

lemma spec_overflow_key: "spec_combined_key 16 [4294967280] table_words = [15, 16, 48, 112]"
  by (simp add: spec_combined_key_def spec_block4 spec_overflow_rounds)

subsection \<open>The key schedule agrees with the specification while the sums fit in 32 bits\<close>

lemma rotate_left32_bits:
  assumes "0 \<le> x" and "x < 2 ^ 32"
  shows "rotate_left32 x 8 = take_bit 32 (ROTL x 8)"
proof -
  have x: "x mod 2 ^ 32 = x" using assms by simp
  have small: "take_bit 32 (drop_bit 24 x) = drop_bit 24 x"
    using assms by (simp add: take_bit_int_eq_self drop_bit_eq_div)
  have disj: "take_bit 32 (push_bit 8 x) + drop_bit 24 x = take_bit 32 (push_bit 8 x) OR drop_bit 24 x"
  proof (rule disjunctive_add)
    fix n
    have "\<not> bit (drop_bit 24 x) n" if "8 \<le> n"
    proof -
      have "drop_bit 24 x < 2 ^ 8" using assms by (simp add: drop_bit_eq_div)
      moreover have "0 \<le> drop_bit 24 x" using assms by simp
      ultimately have "take_bit 8 (drop_bit 24 x) = drop_bit 24 x"
        by (simp add: take_bit_int_eq_self)
      then have "bit (drop_bit 24 x) n = bit (take_bit 8 (drop_bit 24 x)) n" by simp
      also have "\<dots> = False" using that by (simp only: bit_take_bit_iff) simp
      finally show ?thesis by simp
    qed
    moreover have "\<not> bit (take_bit 32 (push_bit 8 x)) n" if "n < 8"
      using that by (simp add: bit_simps)
    ultimately show "\<not> bit (take_bit 32 (push_bit 8 x)) n \<or> \<not> bit (drop_bit 24 x) n"
      by (cases "n < 8") simp_all
  qed
  have "rotate_left32 x 8 = take_bit 32 (push_bit 8 x) + drop_bit 24 x"
    unfolding rotate_left32_def x
    by (simp add: take_bit_eq_mod push_bit_eq_mult drop_bit_eq_div)
  also have "\<dots> = take_bit 32 (push_bit 8 x) OR take_bit 32 (drop_bit 24 x)"
    by (simp only: disj small)
  also have "\<dots> = take_bit 32 (ROTL x 8)"
    by (simp add: ROTL_def take_bit_or)
  finally show ?thesis .
qed

lemma split_byte_bits:
  "s + 8 \<le> 32 \<Longrightarrow> drop_bit s (y AND push_bit s 255) = (take_bit 32 y div 2 ^ s) mod (256 :: int)"
proof -
  assume s: "s + 8 \<le> 32"
  have m: "(255 :: int) = mask 8" by (simp add: mask_eq_exp_minus_1)
  have "drop_bit s (y AND push_bit s (mask 8)) = take_bit 8 (drop_bit s (take_bit 32 y))"
    using s by (intro bit_eqI) (auto simp: bit_simps)
  then show ?thesis
    by (simp add: m take_bit_eq_mod drop_bit_eq_div)
qed

lemma split_rotl_in_range:
  assumes "0 \<le> x" and "x < 2 ^ 32"
  shows "SPLIT_TO_BYTES (ROTL x 8) = spec_decompose (rotate_left32 x 8)"
  unfolding SPLIT_TO_BYTES_def spec_decompose_def rotate_left32_bits [OF assms]
proof -
  have "drop_bit s (y AND push_bit s 255) = (take_bit 32 y div 2 ^ s) mod (256 :: int)"
    if "s \<in> {0, 8, 16, 24}" for s y
    using that by (intro split_byte_bits) auto
  then show "map (\<lambda>s. drop_bit s (ROTL x 8 AND push_bit s 255)) [0, 8, 16, 24] =
        map (\<lambda>s. take_bit 32 (ROTL x 8) div 2 ^ s mod 256) [0, 8, 16, 24]"
    by (intro map_cong refl) simp
qed

lemma CAST_TO_CHAR_mod: "CAST_TO_CHAR v = v mod 256"
proof -
  have "v AND mask 8 = take_bit 8 v" by (simp add: take_bit_eq_mask)
  also have "\<dots> = v mod 256" by (simp add: take_bit_eq_mod)
  finally show ?thesis by (simp add: CAST_TO_CHAR_def mask_eq_exp_minus_1)
qed

lemma table_lookup:
  "256 \<le> length gk \<Longrightarrow> list_index gk (CAST_TO_CHAR v) = Inr (gk ! nat (v mod 256))"
  by (simp add: CAST_TO_CHAR_mod list_index_in_range)

lemma inner_rounds_spec:
  "256 \<le> length gk \<Longrightarrow>
   inner_rounds gk [b0, b1, b2, b3] [0..<4] c = Inr (foldl (spec_inner_round gk) c [b0, b1, b2, b3])"
  by (simp add: upt4 list_index_Cons_0 list_index_Cons_pos table_lookup spec_inner_round_def
        drop_bit_eq_div)

lemma SPLIT_TO_BYTES_four: "\<exists>b0 b1 b2 b3. SPLIT_TO_BYTES v = [b0, b1, b2, b3]"
  by (simp add: SPLIT_TO_BYTES_def)

lemma sub_round_agrees:
  assumes "256 \<le> length gk" and "0 \<le> c + dsize" and "c + dsize < 2 ^ 32"
  shows "inner_rounds gk (SPLIT_TO_BYTES (ROTL (c + dsize) 8)) [0..<4] c =
         Inr (spec_sub_round dsize gk c)"
proof -
  obtain b0 b1 b2 b3 where b: "SPLIT_TO_BYTES (ROTL (c + dsize) 8) = [b0, b1, b2, b3]"
    using SPLIT_TO_BYTES_four by blast
  have "spec_decompose (rotate_left32 (c + dsize) 8) = [b0, b1, b2, b3]"
    using split_rotl_in_range [OF assms(2,3)] b by simp
  then show ?thesis
    unfolding b spec_sub_round_def by (simp only: inner_rounds_spec [OF assms(1)])
qed

lemma sums_fit4:
  "sums_fit d t c 4 =
     (let c1 = spec_sub_round d t c; c2 = spec_sub_round d t c1; c3 = spec_sub_round d t c2
      in 0 \<le> c + d \<and> c + d < 2 ^ 32 \<and> 0 \<le> c1 + d \<and> c1 + d < 2 ^ 32
         \<and> 0 \<le> c2 + d \<and> c2 + d < 2 ^ 32 \<and> 0 \<le> c3 + d \<and> c3 + d < 2 ^ 32)"
  by (simp add: numeral_eq_Suc Let_def)

lemma bytearray_set_in_range:
  "0 \<le> j \<Longrightarrow> j < int (length key) \<Longrightarrow>
   bytearray_set key j (CAST_TO_CHAR v) = Inr (key[nat j := word_of_int (v mod 256)])"
  by (simp add: bytearray_set_def seq_position_def CAST_TO_CHAR_mod)

lemma update_block4_Suc:
  "Suc (Suc (Suc (Suc i))) \<le> length key \<Longrightarrow>
   key[i := a, Suc i := b, Suc (Suc i) := c, Suc (Suc (Suc i)) := d] =
     take i key @ [a, b, c, d] @ drop (Suc (Suc (Suc (Suc i)))) key"
proof (induction i arbitrary: key)
  case 0
  then obtain k0 k1 k2 k3 rest where "key = k0 # k1 # k2 # k3 # rest"
    by (auto simp: Suc_le_length_iff)
  then show ?case by simp
next
  case (Suc i)
  then obtain k0 key' where key: "key = k0 # key'" "Suc (Suc (Suc (Suc i))) \<le> length key'"
    by (cases key) auto
  show ?case using Suc.IH [OF key(2)] by (simp add: key(1))
qed

lemma update_block4:
  "i + 4 \<le> length key \<Longrightarrow>
   key[i := a, i + 1 := b, i + 2 := c, i + 3 := d] = take i key @ [a, b, c, d] @ drop (i + 4) key"
  using update_block4_Suc [of i key a b c d] by (simp add: numeral_eq_Suc)

lemma sub_rounds_spec:
  assumes "256 \<le> length gk" and "sums_fit dsize gk c 4" and "i + 4 \<le> length key"
  shows "\<exists>c'. sub_rounds dsize gk i [0..<4] (key, c) =
           Inr (take i key @ spec_block dsize gk c 4 @ drop (i + 4) key, c')"
proof -
  define c1 where "c1 = spec_sub_round dsize gk c"
  define c2 where "c2 = spec_sub_round dsize gk c1"
  define c3 where "c3 = spec_sub_round dsize gk c2"
  define c4 where "c4 = spec_sub_round dsize gk c3"
  have fit: "0 \<le> c + dsize" "c + dsize < 2 ^ 32" "0 \<le> c1 + dsize" "c1 + dsize < 2 ^ 32"
    "0 \<le> c2 + dsize" "c2 + dsize < 2 ^ 32" "0 \<le> c3 + dsize" "c3 + dsize < 2 ^ 32"
    using assms(2) by (simp_all add: sums_fit4 Let_def c1_def c2_def c3_def)
  note r =
    sub_round_agrees [OF assms(1) fit(1,2), folded c1_def]
    sub_round_agrees [OF assms(1) fit(3,4), folded c2_def]
    sub_round_agrees [OF assms(1) fit(5,6), folded c3_def]
    sub_round_agrees [OF assms(1) fit(7,8), folded c4_def]
  have s4: "sub_rounds dsize gk i [3] (k3, c3) =
        Inr (k3[i + 3 := word_of_int (c4 mod 256)], c4)" if "i + 4 \<le> length k3" for k3
    using that by (simp add: r bytearray_set_in_range nat_add_distrib)
  have s3: "sub_rounds dsize gk i [2, 3] (k2, c2) =
        Inr (k2[i + 2 := word_of_int (c3 mod 256), i + 3 := word_of_int (c4 mod 256)], c4)"
    if "i + 4 \<le> length k2" for k2
    using that by (simp add: r bytearray_set_in_range nat_add_distrib s4)
  have s2: "sub_rounds dsize gk i [1, 2, 3] (k1, c1) =
        Inr (k1[i + 1 := word_of_int (c2 mod 256), i + 2 := word_of_int (c3 mod 256),
                i + 3 := word_of_int (c4 mod 256)], c4)"
    if "i + 4 \<le> length k1" for k1
    using that by (simp add: r bytearray_set_in_range nat_add_distrib s3)
  have s1: "sub_rounds dsize gk i [0, 1, 2, 3] (key, c) =
        Inr (key[i := word_of_int (c1 mod 256), i + 1 := word_of_int (c2 mod 256),
                 i + 2 := word_of_int (c3 mod 256), i + 3 := word_of_int (c4 mod 256)], c4)"
    using assms(3) by (simp add: r bytearray_set_in_range nat_add_distrib s2)
  have blk: "spec_block dsize gk c 4 =
      [word_of_int (c1 mod 256), word_of_int (c2 mod 256), word_of_int (c3 mod 256),
       word_of_int (c4 mod 256)]"
    by (simp add: spec_block4 Let_def c1_def c2_def c3_def c4_def)
  show ?thesis
    unfolding upt4 s1 blk update_block4 [OF assms(3)] by blast
qed

lemma key_blocks_spec:
  assumes "256 \<le> length gk"
  shows "\<forall>c\<in>set ws. sums_fit dsize gk c 4 \<Longrightarrow> lwords = pre @ ws \<Longrightarrow> length pre = k \<Longrightarrow>
         length key = 4 * (k + length ws) \<Longrightarrow>
         key_blocks dsize lwords gk (map (\<lambda>j. 4 * j) [k..<k + length ws]) key =
           Inr (take (4 * k) key @ spec_combined_key dsize ws gk)"
proof (induction ws arbitrary: pre k key)
  case Nil
  then show ?case by (simp add: spec_combined_key_def)
next
  case (Cons c ws)
  have idx: "list_index lwords (int (4 * k) div 4) = Inr c"
    using Cons.prems(2,3) by (simp add: list_index_in_range nth_append)
  have len: "4 * k + 4 \<le> length key" using Cons.prems(4) by simp
  have fit: "sums_fit dsize gk c 4" using Cons.prems(1) by simp
  obtain c' where sr: "sub_rounds dsize gk (4 * k) [0..<4] (key, c) =
      Inr (take (4 * k) key @ spec_block dsize gk c 4 @ drop (4 * k + 4) key, c')"
    using sub_rounds_spec [OF assms fit len] by blast
  let ?key' = "take (4 * k) key @ spec_block dsize gk c 4 @ drop (4 * k + 4) key"
  have blk: "length (spec_block dsize gk c 4) = 4" by (simp add: spec_block4 Let_def)
  have len': "length ?key' = 4 * (Suc k + length ws)"
    using Cons.prems(4) by (simp add: blk)
  have upt: "[k..<k + length (c # ws)] = k # [Suc k..<Suc k + length ws]"
    by (simp add: upt_rec)
  have IH: "key_blocks dsize lwords gk (map (\<lambda>j. 4 * j) [Suc k..<Suc k + length ws]) ?key' =
      Inr (take (4 * Suc k) ?key' @ spec_combined_key dsize ws gk)"
    using Cons.prems by (intro Cons.IH [of "pre @ [c]"] len') simp_all
  have tk: "take (4 * Suc k) ?key' = take (4 * k) key @ spec_block dsize gk c 4"
    using len by (simp add: blk)
  show ?case
    unfolding upt list.map key_blocks.simps idx sum.case sr prod.case IH tk
    by (simp add: spec_combined_key_def)
qed

lemma length_split_by4: "split_by xs 4 = Inr chunks \<Longrightarrow> length chunks = (length xs + 3) div 4"
  by (auto simp: split_by_def)

lemma combine_keys_refines_spec:
  assumes "length lk mod 4 = 0" and "1024 \<le> length gk"
    and "split_by lk 4 = Inr lchunks" and "split_by gk 4 = Inr gchunks"
    and "\<forall>c\<in>set (map COMBINE_BYTES lchunks). sums_fit dsize (map COMBINE_BYTES gchunks) c 4"
  shows "combine_keys (length lk) dsize lk gk =
         Inr (spec_combined_key dsize (map COMBINE_BYTES lchunks) (map COMBINE_BYTES gchunks))"
proof -
  let ?lw = "map COMBINE_BYTES lchunks" and ?gw = "map COMBINE_BYTES gchunks"
  have g: "256 \<le> length ?gw"
    using assms(2) length_split_by4 [OF assms(4)] by simp
  have l: "length lk = 4 * length ?lw"
    using assms(1) length_split_by4 [OF assms(3)] by simp presburger
  have x: "xrange4 (length lk) = map (\<lambda>j. 4 * j) [0..<0 + length ?lw]"
    unfolding xrange4_def l by simp
  have "key_blocks dsize ?lw ?gw (map (\<lambda>j. 4 * j) [0..<0 + length ?lw]) (replicate (length lk) 0) =
        Inr (take (4 * 0) (replicate (length lk) 0) @ spec_combined_key dsize ?lw ?gw)"
    using assms(5) l by (intro key_blocks_spec [OF g, of ?lw dsize ?lw "[]"]) simp_all
  then show ?thesis
    unfolding combine_keys_def assms(3,4) sum.case x by simp
qed

subsection \<open>Cipher objects for concrete runs\<close>

lemma sample_crypt_init:
  "GearboxCrypt_init 16 [1, 0, 0, 0] identity_table default_chunk_size = Inr sample_crypt"
proof -
  have len: "length [1, 0, 0, 0 :: byte] = 4" by simp
  show ?thesis
    unfolding GearboxCrypt_init_def sample_crypt_def
    by (simp only: len sample_key sum.case)
qed

lemma empty_key_crypt_init:
  "GearboxCrypt_init 0 [] identity_table default_chunk_size = Inr empty_key_crypt"
proof -
  have len: "length ([] :: byte list) = 0" by simp
  show ?thesis
    unfolding GearboxCrypt_init_def empty_key_crypt_def
    by (simp only: len empty_key sum.case)
qed

lemmas cipher_eval =
  encrypt_def decrypt_def key_stream_def sample_crypt_def empty_key_crypt_def
  list_index_Cons_0 list_index_Cons_pos Let_def

subsection \<open>Closed forms of encryption and decryption\<close>

lemma byte_round_trip:
  "(word_of_int (255 AND (uint (word_of_int (255 AND (uint c - uint k)) :: byte) + uint k)) :: byte) = c"
  by (simp add: byte_of_masked)

lemma key_stream_Inr:
  assumes "0 < key_size g" and "length (encryption_key g) = key_size g"
  shows "key_stream g n s =
    map Inr (map (\<lambda>k. encryption_key g ! nat ((s + int k) mod int (key_size g))) [0..<n])"
  using assms by (simp add: key_stream_valid)

lemma decrypt_valid:
  assumes "0 < key_size g" and "length (encryption_key g) = key_size g"
  shows "decrypt g d off =
    Inr (map2 (\<lambda>c k. word_of_int (255 AND (uint c + uint k))) d
          (map (\<lambda>k. encryption_key g ! nat ((off + int k) mod int (key_size g))) [0..<length d]))"
  unfolding decrypt_def key_stream_Inr [OF assms] by (rule izip_bytes_Inr) simp

lemma encrypt_valid:
  assumes "0 < key_size g" and "length (encryption_key g) = key_size g"
  shows "encrypt g d off =
    Inr (map2 (\<lambda>c k. word_of_int (255 AND (uint c - uint k))) d
          (map (\<lambda>k. encryption_key g ! nat ((off + int k) mod int (key_size g))) [0..<length d]))"
  unfolding encrypt_def key_stream_Inr [OF assms] by (rule izip_bytes_Inr) simp

section \<open>The claims about the cipher\<close>

text \<open>
  C1 (key schedule). The claim: for every data size, every local key of a positive
  multiple of 4 bytes and every global key of at least 256 words, each sub-round of
  \<open>_combine_keys\<close> decomposes the 32-bit left rotation by 8 of \<open>c + data_size\<close>.
  \<open>ROTL\<close> rotates within 32 bits only while its argument fits in 32 bits
  (\<open>combine_keys_refines_spec\<close> above: the code derives the specified key whenever
  every sum does). Python's sum \<open>c + data_size\<close> is not reduced, and once it reaches
  \<open>2 ^ 32\<close> bit 32 of the sum lands in bit 8 of the result. For the data size 16, the
  local key \<open>f0 ff ff ff\<close> (the word \<open>0xFFFFFFF0\<close>, so that the first sum is
  \<open>2 ^ 32\<close>) and the table whose word \<open>k\<close> is \<open>k\<close>, the code derives the key
  \<open>0e 10 30 70\<close>, and the schedule with 32-bit rotation derives \<open>0f 10 30 70\<close>.
\<close>

theorem key_schedule_overflow:
  "combine_keys 4 16 [240, 255, 255, 255] identity_table = Inr [14, 16, 48, 112]
   \<and> spec_combined_key 16 [4294967280] table_words = [15, 16, 48, 112]
   \<and> split_by identity_table 4 = Inr (map (\<lambda>k. [of_nat k, 0, 0, 0]) [0..<256])
   \<and> map COMBINE_BYTES (map (\<lambda>k. [of_nat k, 0, 0, 0]) [0..<256]) = table_words
   \<and> COMBINE_BYTES [240, 255, 255, 255] = 4294967280"
  by (intro conjI overflow_key spec_overflow_key split_by_identity_table identity_table_words)
     (simp add: COMBINE_BYTES_def)

text \<open>
  C2 (cipher direction), as the code has it: for every cipher object built from a
  non-empty local key, every byte sequence \<open>d\<close> and every offset, \<open>encrypt\<close> returns
  the bytes \<open>(d[p] - keystream) mod 256\<close> and \<open>decrypt\<close> returns the bytes
  \<open>(d[p] + keystream) mod 256\<close>, where the key stream byte for the byte at index \<open>p\<close>
  is \<open>combined_key[(offset + p) mod key_size]\<close>. The directions are the reverse of the
  ones the specification gives.
\<close>

theorem cipher_direction:
  assumes "GearboxCrypt_init dsize lk gk cs = Inr g" and "lk \<noteq> []"
  shows "(\<exists>e. encrypt g d off = Inr e \<and> length e = length d \<and>
            (\<forall>p<length d. uint (e ! p) =
               (uint (d ! p) - uint (encryption_key g ! nat ((off + int p) mod int (key_size g)))) mod 256))
       \<and> (\<exists>e. decrypt g d off = Inr e \<and> length e = length d \<and>
            (\<forall>p<length d. uint (e ! p) =
               (uint (d ! p) + uint (encryption_key g ! nat ((off + int p) mod int (key_size g)))) mod 256))"
proof -
  have ks: "0 < key_size g" "length (encryption_key g) = key_size g"
    using GearboxCrypt_init_fields [OF assms(1)] assms(2) by simp_all
  show ?thesis
    unfolding encrypt_valid [OF ks] decrypt_valid [OF ks]
    by (simp add: uint_byte_of_masked)
qed

theorem cipher_direction_witness:
  "[1, 0, 0, 0] \<noteq> ([] :: byte list)
   \<and> (\<exists>e. encrypt sample_crypt [7] 0 = Inr e \<and> length e = 1 \<and> uint (e ! 0) = 247)
   \<and> (\<exists>e. decrypt sample_crypt [7] 0 = Inr e \<and> length e = 1 \<and> uint (e ! 0) = 23)"
  using cipher_direction [OF sample_crypt_init, of "[7]" 0]
  by (simp add: sample_crypt_def)

text \<open>The claim as stated fails on the sample cipher object: encrypting the byte 0 at
  offset 0 gives \<open>0 - 16 = 240\<close>, where the specification's encryption gives
  \<open>0 + 16 = 16\<close>.\<close>

theorem cipher_direction_counterexample:
  "GearboxCrypt_init 16 [1, 0, 0, 0] identity_table default_chunk_size = Inr sample_crypt
   \<and> encrypt sample_crypt [0] 0 = Inr [240]
   \<and> spec_encrypt (encryption_key sample_crypt) [0] 0 = [16]
   \<and> decrypt sample_crypt [0] 0 = Inr [16]
   \<and> spec_decrypt (encryption_key sample_crypt) [0] 0 = [240]"
  by (simp add: sample_crypt_init cipher_eval spec_encrypt_def spec_decrypt_def spec_keystream_def)

text \<open>
  C3 (inverse law), as the code has it: for every cipher object built from a non-empty
  local key, every byte sequence \<open>d\<close> and every offset \<open>o\<close>, \<open>encrypt(d, o)\<close> returns
  and \<open>decrypt(encrypt(d, o), o)\<close> is \<open>d\<close>.
\<close>

theorem cipher_inverse:
  assumes "GearboxCrypt_init dsize lk gk cs = Inr g" and "lk \<noteq> []"
  shows "\<exists>e. encrypt g d off = Inr e \<and> decrypt g e off = Inr d"
proof -
  have ks: "0 < key_size g" "length (encryption_key g) = key_size g"
    using GearboxCrypt_init_fields [OF assms(1)] assms(2) by simp_all
  let ?ks = "map (\<lambda>k. encryption_key g ! nat ((off + int k) mod int (key_size g))) [0..<length d]"
  let ?e = "map2 (\<lambda>c k. word_of_int (255 AND (uint c - uint k)) :: byte) d ?ks"
  have len: "length ?e = length d" by simp
  have "map2 (\<lambda>c k. word_of_int (255 AND (uint c + uint k)) :: byte) ?e ?ks = d"
    by (rule nth_equalityI) (simp_all add: byte_round_trip)
  then have "decrypt g ?e off = Inr d"
    unfolding decrypt_valid [OF ks] len by simp
  then show ?thesis
    using encrypt_valid [OF ks, of d off] by blast
qed

theorem cipher_inverse_witness:
  "[1, 0, 0, 0] \<noteq> ([] :: byte list)
   \<and> (\<exists>e. encrypt sample_crypt [7, 200] 5 = Inr e \<and> decrypt sample_crypt e 5 = Inr [7, 200])"
  using cipher_inverse [OF sample_crypt_init, of "[7, 200]" 5]
  by simp

text \<open>The law fails for the cipher object built from an empty local key: its key size
  is 0, and encrypting one byte raises \<open>ZeroDivisionError\<close> in the key stream.\<close>

theorem cipher_inverse_counterexample:
  "GearboxCrypt_init 0 [] identity_table default_chunk_size = Inr empty_key_crypt
   \<and> encrypt empty_key_crypt [0] 0 = Inl ZeroDivisionError"
  by (simp add: empty_key_crypt_init cipher_eval)

text \<open>
  C7 (chunk-size independence): for every cipher object, every input stream, every
  offset \<open>o\<close> and every chunk size \<open>c \<ge> 1\<close>, \<open>decrypt_stream\<close> with chunk size \<open>c\<close>
  terminates, and it writes what the single call of \<open>decrypt\<close> on the whole remaining
  input returns, keyed at \<open>o\<close> plus the initial position of the input; it returns the
  number of bytes consumed and leaves the input at its end. It raises exactly when the
  single call raises. The same holds for \<open>encrypt_stream\<close> and \<open>encrypt\<close>. The right
  hand sides do not mention the chunk size.
\<close>

theorem chunk_size_independence:
  assumes "1 \<le> c"
  shows "decrypt_stream (g\<lparr>chunk_size := c\<rparr>) inp out off =
           (case decrypt g (drop (position inp) (contents inp)) (off + file_tell inp) of
              Inl e \<Rightarrow> Inl e
            | Inr bs \<Rightarrow> Inr (int (length bs), inp\<lparr>position := position inp + length bs\<rparr>, out @ bs))
       \<and> encrypt_stream (g\<lparr>chunk_size := c\<rparr>) inp out off =
           (case encrypt g (drop (position inp) (contents inp)) (off + file_tell inp) of
              Inl e \<Rightarrow> Inl e
            | Inr bs \<Rightarrow> Inr (int (length bs), inp\<lparr>position := position inp + length bs\<rparr>, out @ bs))"
proof
  let ?g = "g\<lparr>chunk_size := c\<rparr>"
  let ?rest = "drop (position inp) (contents inp)"
  have pos: "0 < chunk_size ?g" using assms by simp
  show "decrypt_stream ?g inp out off =
           (case decrypt g ?rest (off + file_tell inp) of
              Inl e \<Rightarrow> Inl e
            | Inr bs \<Rightarrow> Inr (int (length bs), inp\<lparr>position := position inp + length bs\<rparr>, out @ bs))"
  proof (cases "decrypt g ?rest (off + file_tell inp)")
    case (Inl e)
    then show ?thesis
      unfolding decrypt_stream_def Let_def decrypt_loop_whole [OF pos] decrypt_chunk_size
      by simp
  next
    case (Inr bs)
    have "length bs = length ?rest" using Inr by (rule decrypt_length)
    with Inr show ?thesis
      unfolding decrypt_stream_def Let_def decrypt_loop_whole [OF pos] decrypt_chunk_size
      by (simp add: file_tell_def)
  qed
  show "encrypt_stream ?g inp out off =
           (case encrypt g ?rest (off + file_tell inp) of
              Inl e \<Rightarrow> Inl e
            | Inr bs \<Rightarrow> Inr (int (length bs), inp\<lparr>position := position inp + length bs\<rparr>, out @ bs))"
  proof (cases "encrypt g ?rest (off + file_tell inp)")
    case (Inl e)
    then show ?thesis
      unfolding encrypt_stream_def Let_def encrypt_loop_whole [OF pos] encrypt_chunk_size
      by simp
  next
    case (Inr bs)
    have "length bs = length ?rest" using Inr by (rule encrypt_length)
    with Inr show ?thesis
      unfolding encrypt_stream_def Let_def encrypt_loop_whole [OF pos] encrypt_chunk_size
      by (simp add: file_tell_def)
  qed
qed

theorem chunk_size_independence_witness:
  "(1 :: int) \<le> 2
   \<and> decrypt_stream (sample_crypt\<lparr>chunk_size := 2\<rparr>)
        \<lparr>contents = [1, 2, 3, 4, 5], position = 1\<rparr> [9] 0 =
       Inr (4, \<lparr>contents = [1, 2, 3, 4, 5], position = 5\<rparr>, [9, 50, 115, 244, 21])
   \<and> encrypt_stream (sample_crypt\<lparr>chunk_size := 2\<rparr>)
        \<lparr>contents = [1, 2, 3, 4, 5], position = 1\<rparr> [9] 0 =
       Inr (4, \<lparr>contents = [1, 2, 3, 4, 5], position = 5\<rparr>, [9, 210, 147, 20, 245])"
  using chunk_size_independence [of 2 sample_crypt "\<lparr>contents = [1, 2, 3, 4, 5], position = 1\<rparr>" "[9]" 0]
  by (simp add: cipher_eval file_tell_def)

section \<open>Properties of the trailer protocol and the read path\<close>

lemma le_uint_nonneg: "0 \<le> le_uint s"
  by (induction s) (simp_all add: le_uint_def)

lemma file_read_at:
  "0 \<le> n \<Longrightarrow> file_read (h\<lparr>position := p\<rparr>) n =
     (take (nat n) (drop p (contents h)),
      h\<lparr>position := p + length (take (nat n) (drop p (contents h)))\<rparr>)"
  by (simp add: file_read_def Let_def)

lemma load_encryption_short:
  "length (contents h) < 4 \<Longrightarrow> load_encryption mk h = (Inl IOError, h)"
  by (simp add: load_encryption_def file_seek_def)

lemma load_encryption_head:
  assumes "4 \<le> length (contents h)"
  shows "load_encryption mk h =
    (let n = length (contents h);
         marker_offset = le_uint (drop (n - 4) (contents h));
         h1 = h\<lparr>position := n\<rparr>
     in if marker_offset < int n - 10 then
          (let h2 = h\<lparr>position := nat (int n - marker_offset)\<rparr>;
               r2 = file_read h2 4
           in case struct_unpack 4 (fst r2) of
                Inl e \<Rightarrow> (Inl e, snd r2)
              | Inr marker \<Rightarrow>
                  if marker = ENCRYPTION_KEY_MARKER then
                    (let r3 = file_read (snd r2) 2
                     in case struct_unpack 2 (fst r3) of
                          Inl e \<Rightarrow> (Inl e, snd r3)
                        | Inr encryption_key_bytes \<Rightarrow>
                            if encryption_key_bytes \<le> ENCRYPTION_KEY_MAX_SIZE then
                              (let r4 = file_read (snd r3) encryption_key_bytes
                               in (GearboxCrypt_init (int n - marker_offset) (fst r4)
                                     mk default_chunk_size, snd r4))
                            else (Inl GearboxEncryptionException, snd r3))
                  else (Inl GearboxEncryptionException, snd r2))
        else (Inl GearboxEncryptionException, h1))"
proof -
  define n where "n = length (contents h)"
  define raw where "raw = drop (n - 4) (contents h)"
  have s1: "file_seek h (- 4) SEEK_END = Inr (h\<lparr>position := n - 4\<rparr>)"
    using assms by (simp add: file_seek_def n_def nat_diff_distrib')
  have len: "length raw = 4" using assms by (simp add: raw_def n_def)
  have r1: "file_read (h\<lparr>position := n - 4\<rparr>) 4 = (raw, h\<lparr>position := n\<rparr>)"
    using assms len by (simp add: file_read_at raw_def n_def)
  have u1: "struct_unpack 4 raw = Inr (le_uint raw)"
    using len by (simp add: struct_unpack_def)
  have t1: "file_tell (h\<lparr>position := n - 4\<rparr>) = int n - 4"
    using assms by (simp add: file_tell_def n_def)
  have s2: "file_seek (h\<lparr>position := n\<rparr>) (- le_uint raw) SEEK_CUR =
            Inr (h\<lparr>position := nat (int n - le_uint raw)\<rparr>)"
    if "le_uint raw < int n - 10"
    using that by (simp add: file_seek_def)
  have t2: "file_tell (h\<lparr>position := nat (int n - le_uint raw)\<rparr>) = int n - le_uint raw"
    if "le_uint raw < int n - 10"
    using that by (simp add: file_tell_def)
  show ?thesis
  proof (cases "le_uint raw < int n - 10")
    case True
    then have c: "le_uint raw < int n - 4 - 6" by simp
    show ?thesis
      unfolding load_encryption_def s1 sum.case Let_def t1 r1 fst_conv snd_conv u1
        n_def [symmetric] raw_def [symmetric] if_P [OF c] if_P [OF True] s2 [OF True] t2 [OF True]
      by (rule refl)
  next
    case False
    then have c: "\<not> le_uint raw < int n - 4 - 6" by simp
    show ?thesis
      unfolding load_encryption_def s1 sum.case Let_def t1 r1 fst_conv snd_conv u1
        n_def [symmetric] raw_def [symmetric] if_not_P [OF c] if_not_P [OF False]
      by (rule refl)
  qed
qed

lemma load_encryption_unfold:
  assumes "4 \<le> length (contents h)"
    and "cs = contents h"
    and "backptr = le_uint (drop (length cs - 4) cs)"
    and "esz = nat (int (length cs) - backptr)"
    and "m = take 4 (drop esz cs)"
    and "k = take 2 (drop (esz + 4) cs)"
    and "lk = take (nat (le_uint k)) (drop (esz + 6) cs)"
  shows "load_encryption mk h =
    (if backptr < int (length cs) - 10 then
       if length m \<noteq> 4 then (Inl StructError, h\<lparr>position := esz + length m\<rparr>)
       else if le_uint m \<noteq> 0 then (Inl GearboxEncryptionException, h\<lparr>position := esz + 4\<rparr>)
       else if length k \<noteq> 2 then (Inl StructError, h\<lparr>position := esz + 4 + length k\<rparr>)
       else if 1024 < le_uint k then (Inl GearboxEncryptionException, h\<lparr>position := esz + 6\<rparr>)
       else (GearboxCrypt_init (int (length cs) - backptr) lk mk default_chunk_size,
             h\<lparr>position := esz + 6 + length lk\<rparr>)
     else (Inl GearboxEncryptionException, h\<lparr>position := length cs\<rparr>))"
proof (cases "backptr < int (length cs) - 10")
  case False
  then show ?thesis
    using assms(1) unfolding load_encryption_head [OF assms(1)] assms(2,3) Let_def
    by simp
next
  case True
  have r2: "file_read (h\<lparr>position := esz\<rparr>) 4 = (m, h\<lparr>position := esz + length m\<rparr>)"
    by (simp add: file_read_at assms(2,5))
  have r3: "file_read (h\<lparr>position := esz + 4\<rparr>) 2 = (k, h\<lparr>position := esz + 4 + length k\<rparr>)"
    by (simp add: file_read_at assms(2,6))
  have r4: "file_read (h\<lparr>position := esz + 6\<rparr>) (le_uint k) = (lk, h\<lparr>position := esz + 6 + length lk\<rparr>)"
    by (simp add: file_read_at assms(2,7) le_uint_nonneg)
  have r4': "file_read (h\<lparr>position := 6 + esz\<rparr>) (le_uint k) = (lk, h\<lparr>position := esz + 6 + length lk\<rparr>)"
    using r4 by (simp only: add.commute [of 6 esz])
  have head: "load_encryption mk h =
    (case struct_unpack 4 (fst (file_read (h\<lparr>position := esz\<rparr>) 4)) of
       Inl e \<Rightarrow> (Inl e, snd (file_read (h\<lparr>position := esz\<rparr>) 4))
     | Inr marker \<Rightarrow>
         if marker = ENCRYPTION_KEY_MARKER then
           (let r3 = file_read (snd (file_read (h\<lparr>position := esz\<rparr>) 4)) 2
            in case struct_unpack 2 (fst r3) of
                 Inl e \<Rightarrow> (Inl e, snd r3)
               | Inr encryption_key_bytes \<Rightarrow>
                   if encryption_key_bytes \<le> ENCRYPTION_KEY_MAX_SIZE then
                     (let r4 = file_read (snd r3) encryption_key_bytes
                      in (GearboxCrypt_init (int (length cs) - backptr) (fst r4)
                            mk default_chunk_size, snd r4))
                   else (Inl GearboxEncryptionException, snd r3))
         else (Inl GearboxEncryptionException, snd (file_read (h\<lparr>position := esz\<rparr>) 4)))"
    using True unfolding load_encryption_head [OF assms(1)] assms(2,3,4) Let_def
    by (simp only: if_True)
  show ?thesis
  proof (cases "length m = 4")
    case False
    then show ?thesis using True
      unfolding head r2 fst_conv snd_conv by (simp add: struct_unpack_def)
  next
    case m4: True
    show ?thesis
    proof (cases "le_uint m = 0")
      case False
      then show ?thesis using True m4
        unfolding head r2 fst_conv snd_conv
        by (simp add: struct_unpack_def ENCRYPTION_KEY_MARKER_def)
    next
      case m0: True
      have head2: "load_encryption mk h =
         (case struct_unpack 2 k of
            Inl e \<Rightarrow> (Inl e, h\<lparr>position := esz + 4 + length k\<rparr>)
          | Inr encryption_key_bytes \<Rightarrow>
              if encryption_key_bytes \<le> ENCRYPTION_KEY_MAX_SIZE then
                (let r4 = file_read (h\<lparr>position := esz + 4 + length k\<rparr>) encryption_key_bytes
                 in (GearboxCrypt_init (int (length cs) - backptr) (fst r4)
                       mk default_chunk_size, snd r4))
              else (Inl GearboxEncryptionException, h\<lparr>position := esz + 4 + length k\<rparr>))"
        using m4 m0 unfolding head r2 fst_conv snd_conv
        by (simp add: struct_unpack_def ENCRYPTION_KEY_MARKER_def r3 Let_def)
      show ?thesis
      proof (cases "length k = 2")
        case False
        then show ?thesis using True m4 m0
          unfolding head2 by (simp add: struct_unpack_def)
      next
        case k2: True
        show ?thesis
        proof (cases "1024 < le_uint k")
          case True
          then show ?thesis using \<open>backptr < int (length cs) - 10\<close> m4 m0 k2
            unfolding head2 by (simp add: struct_unpack_def ENCRYPTION_KEY_MAX_SIZE_def)
        next
          case False
          then show ?thesis using \<open>backptr < int (length cs) - 10\<close> m4 m0 k2
            unfolding head2
            by (simp add: struct_unpack_def ENCRYPTION_KEY_MAX_SIZE_def r4' Let_def)
        qed
      qed
    qed
  qed
qed

lemma short_key: "combine_keys 4 16 [10, 0, 0, 0] identity_table = Inr [16, 48, 112, 240]"
  by (simp add: key_eval split_by_4)

lemma short_key_init:
  "GearboxCrypt_init 16 [10, 0, 0, 0] identity_table default_chunk_size = Inr sample_crypt"
proof -
  have len: "length [10, 0, 0, 0 :: byte] = 4" by simp
  show ?thesis
    unfolding GearboxCrypt_init_def sample_crypt_def
    by (simp only: len short_key sum.case)
qed

lemmas trailer_eval = load_encryption_unfold [OF _ refl refl refl refl refl refl] le_uint_def

lemma sample_archive_load:
  "load_encryption identity_table \<lparr>contents = sample_archive, position = 0\<rparr> =
     (Inr sample_crypt, \<lparr>contents = sample_archive, position = 26\<rparr>)"
  by (simp add: trailer_eval sample_archive_def sample_crypt_init)

lemma short_key_archive_load:
  "load_encryption identity_table \<lparr>contents = short_key_archive, position = 0\<rparr> =
     (Inr sample_crypt, \<lparr>contents = short_key_archive, position = 26\<rparr>)"
  by (simp add: trailer_eval short_key_archive_def short_key_init)

lemma read_clamped:
  assumes "crypto self = Some c"
    and "p = position (handle self)"
    and "cs = contents (handle self)"
  shows "(int p < data_size c \<longrightarrow> 0 \<le> n \<longrightarrow>
            read self (Some n) =
              (decrypt c (take (nat (min (int p + n) (data_size c) - int p)) (drop p cs)) (int p),
               self\<lparr>handle := (handle self)
                  \<lparr>position := p + length (take (nat (min (int p + n) (data_size c) - int p)) (drop p cs))\<rparr>\<rparr>))
       \<and> (int p < data_size c \<longrightarrow>
            read self None =
              (decrypt c (take (nat (data_size c - int p)) (drop p cs)) (int p),
               self\<lparr>handle := (handle self)
                  \<lparr>position := p + length (take (nat (data_size c - int p)) (drop p cs))\<rparr>\<rparr>))
       \<and> (data_size c \<le> int p \<longrightarrow>
            read self (Some n) =
              (Inr (fst (file_read (handle self) n)), self\<lparr>handle := snd (file_read (handle self) n)\<rparr>))"
proof -
  have enc: "read_encrypted self s =
      (decrypt c (take (nat s) (drop p cs)) (int p),
       self\<lparr>handle := (handle self)\<lparr>position := p + length (take (nat s) (drop p cs))\<rparr>\<rparr>)"
    if "0 \<le> s" for s
  proof -
    have rd: "file_read (handle self) s =
        (take (nat s) (drop p cs), (handle self)\<lparr>position := p + length (take (nat s) (drop p cs))\<rparr>)"
      using that unfolding assms(2,3) by (simp add: file_read_def Let_def)
    show ?thesis
      unfolding read_encrypted_def Let_def rd fst_conv snd_conv
      by (simp add: assms(1) file_tell_def assms(2))
  qed
  show ?thesis
  proof (intro conjI impI)
    assume lt: "int p < data_size c" and n: "0 \<le> n"
    have s0: "0 \<le> min (int p + n) (data_size c) - int p" using lt n by simp
    have "read self (Some n) = read_encrypted self (min (int p + n) (data_size c) - int p)"
      using lt
      by (simp add: read_def big_data_size_def assms(1) file_tell_def assms(2) Let_def min_def)
    then show "read self (Some n) =
        (decrypt c (take (nat (min (int p + n) (data_size c) - int p)) (drop p cs)) (int p),
         self\<lparr>handle := (handle self)
            \<lparr>position := p + length (take (nat (min (int p + n) (data_size c) - int p)) (drop p cs))\<rparr>\<rparr>)"
      by (simp only: enc [OF s0])
  next
    assume lt: "int p < data_size c"
    then have s0: "0 \<le> data_size c - int p" by simp
    have "read self None = read_encrypted self (data_size c - int p)"
      using lt by (simp add: read_def big_data_size_def assms(1) file_tell_def assms(2) Let_def)
    then show "read self None =
        (decrypt c (take (nat (data_size c - int p)) (drop p cs)) (int p),
         self\<lparr>handle := (handle self)
            \<lparr>position := p + length (take (nat (data_size c - int p)) (drop p cs))\<rparr>\<rparr>)"
      by (simp only: enc [OF s0])
  next
    assume "data_size c \<le> int p"
    then show "read self (Some n) =
        (Inr (fst (file_read (handle self) n)), self\<lparr>handle := snd (file_read (handle self) n)\<rparr>)"
      by (simp add: read_def big_data_size_def assms(1) file_tell_def assms(2) Let_def)
  qed
qed

section \<open>The claims about the encrypted archive\<close>

text \<open>
  C4 (trailer success), as the code has it: whenever \<open>_load_encryption\<close> returns, the
  file has at least 4 bytes and, with \<open>backptr\<close> the little-endian number in its last
  4 bytes, the back pointer is below \<open>(EOF - 4) - 6\<close>, the encrypted region size is
  \<open>EOF - backptr\<close>, the 4 bytes there are zero, the 2-byte key length after them is at
  most 1024, the local key is what reading \<open>key_len\<close> bytes after these two fields
  returns, which is \<open>key_len\<close> bytes or, when the file ends first, the bytes left, and
  the result is the cipher constructed from the region size, that local key and the
  master key.
\<close>

theorem trailer_success:
  assumes "load_encryption mk h = (Inr g, h')"
    and "cs = contents h"
    and "backptr = le_uint (drop (length cs - 4) cs)"
    and "esz = nat (int (length cs) - backptr)"
    and "key_len = le_uint (take 2 (drop (esz + 4) cs))"
    and "local_key = take (nat key_len) (drop (esz + 6) cs)"
  shows "4 \<le> length cs \<and> backptr < int (length cs) - 10
       \<and> le_uint (take 4 (drop esz cs)) = 0 \<and> key_len \<le> 1024
       \<and> data_size g = int (length cs) - backptr
       \<and> length local_key = min (nat key_len) (length cs - (esz + 6))
       \<and> GearboxCrypt_init (int (length cs) - backptr) local_key mk default_chunk_size = Inr g"
proof -
  have n4: "4 \<le> length (contents h)"
  proof (rule ccontr)
    assume "\<not> 4 \<le> length (contents h)"
    then have "load_encryption mk h = (Inl IOError, h)"
      by (intro load_encryption_short) simp
    with assms(1) show False by simp
  qed
  note eq = load_encryption_unfold [OF n4 assms(2) assms(3) assms(4) refl refl refl, of mk]
  have init: "GearboxCrypt_init (int (length cs) - backptr) local_key mk default_chunk_size = Inr g"
    and b: "backptr < int (length cs) - 10" and m: "le_uint (take 4 (drop esz cs)) = 0"
    and k: "key_len \<le> 1024"
    using assms(1) unfolding eq assms(5,6)
    by (auto split: if_splits)
  have "data_size g = int (length cs) - backptr"
    using init by (rule GearboxCrypt_init_fields)
  moreover have "length local_key = min (nat key_len) (length cs - (esz + 6))"
    by (simp add: assms(6) min.commute)
  ultimately show ?thesis using n4 init b m k by (simp add: assms(2))
qed

theorem trailer_success_witness:
  "load_encryption identity_table \<lparr>contents = sample_archive, position = 0\<rparr> =
     (Inr sample_crypt, \<lparr>contents = sample_archive, position = 26\<rparr>)
   \<and> data_size sample_crypt = 30 - 14
   \<and> GearboxCrypt_init (30 - 14) [1, 0, 0, 0] identity_table default_chunk_size = Inr sample_crypt"
proof -
  have "data_size sample_crypt = 30 - 14
      \<and> GearboxCrypt_init (30 - 14) [1, 0, 0, 0] identity_table default_chunk_size = Inr sample_crypt"
    using trailer_success [OF sample_archive_load refl refl refl refl refl]
    by (simp add: sample_archive_def le_uint_def)
  then show ?thesis by (simp add: sample_archive_load)
qed

text \<open>The claim says that the local key is exactly \<open>key_len\<close> bytes. In
  \<open>short_key_archive\<close> the key length field is 8 and 4 bytes follow it;
  \<open>_load_encryption\<close> returns a cipher with a 4-byte key.\<close>

theorem trailer_success_counterexample:
  "fst (load_encryption identity_table \<lparr>contents = short_key_archive, position = 0\<rparr>) =
     Inr sample_crypt
   \<and> key_size sample_crypt = 4
   \<and> le_uint (take 2 (drop (16 + 4) short_key_archive)) = 8
   \<and> length (drop (16 + 6) short_key_archive) = 4"
  by (simp add: short_key_archive_load) (simp add: short_key_archive_def sample_crypt_def le_uint_def)

text \<open>
  C5 (trailer rejection), as the code has it: for every file of at least 4 bytes whose
  back pointer is not below \<open>(EOF - 4) - 6\<close>, or whose back pointer is at least 4 and
  whose 4-byte marker at \<open>EOF - backptr\<close> is not zero, or whose back pointer is at least
  6 and whose declared key length exceeds 1024, \<open>_load_encryption\<close> raises the
  encryption-format error, \<open>load\<close> raises it too, and the archive's \<open>_crypto\<close> is what
  it was.
\<close>

theorem trailer_rejection:
  assumes "cs = contents (handle self)"
    and "4 \<le> length cs"
    and "backptr = le_uint (drop (length cs - 4) cs)"
    and "esz = nat (int (length cs) - backptr)"
    and "int (length cs) - 10 \<le> backptr
         \<or> (4 \<le> backptr \<and> le_uint (take 4 (drop esz cs)) \<noteq> 0)
         \<or> (6 \<le> backptr \<and> 1024 < le_uint (take 2 (drop (esz + 4) cs)))"
  shows "fst (load_encryption mk (handle self)) = Inl GearboxEncryptionException
       \<and> fst (GearboxEncryptedBigFile_load mk super_load self) = Some GearboxEncryptionException
       \<and> crypto (snd (GearboxEncryptedBigFile_load mk super_load self)) = crypto self"
proof -
  have n4: "4 \<le> length (contents (handle self))" using assms(1,2) by simp
  note eq = load_encryption_unfold [OF n4 assms(1) assms(3) assms(4) refl refl refl, of mk]
  have rej: "fst (load_encryption mk (handle self)) = Inl GearboxEncryptionException"
  proof (cases "backptr < int (length cs) - 10")
    case False
    then show ?thesis unfolding eq by simp
  next
    case True
    have pos: "0 \<le> backptr" unfolding assms(3) by (rule le_uint_nonneg)
    have esz: "int esz = int (length cs) - backptr" using True pos by (simp add: assms(4))
    from assms(5) True consider
        (marker) "4 \<le> backptr" "le_uint (take 4 (drop esz cs)) \<noteq> 0"
      | (keylen) "6 \<le> backptr" "1024 < le_uint (take 2 (drop (esz + 4) cs))"
      by auto
    then show ?thesis
    proof cases
      case marker
      have "length (take 4 (drop esz cs)) = 4" using marker(1) esz by simp
      then show ?thesis using True marker(2) unfolding eq by simp
    next
      case keylen
      have m4: "length (take 4 (drop esz cs)) = 4" using keylen(1) esz by simp
      have k2: "length (take 2 (drop (esz + 4) cs)) = 2" using keylen(1) esz by simp
      show ?thesis using True keylen(2) m4 k2 unfolding eq by simp
    qed
  qed
  obtain r h' where p: "load_encryption mk (handle self) = (r, h')"
    by (cases "load_encryption mk (handle self)")
  with rej have r: "r = Inl GearboxEncryptionException" by simp
  show ?thesis
    using rej by (simp add: GearboxEncryptedBigFile_load_def p r)
qed

theorem trailer_rejection_witness:
  "fst (load_encryption identity_table (handle (opened bad_marker_archive))) =
     Inl GearboxEncryptionException
   \<and> fst (GearboxEncryptedBigFile_load identity_table no_structure (opened bad_marker_archive)) =
       Some GearboxEncryptionException
   \<and> crypto (snd (GearboxEncryptedBigFile_load identity_table no_structure (opened bad_marker_archive))) =
       crypto (opened bad_marker_archive)"
  using trailer_rejection [of bad_marker_archive "opened bad_marker_archive" 14 16
      identity_table no_structure]
  by (simp add: opened_def bad_marker_archive_def le_uint_def)

text \<open>A back pointer of 0 places the marker at the end of the file, within 6 bytes of
  it. The check on the back pointer bounds it from above only, the read of the marker
  returns no bytes, and \<open>struct.unpack\<close> raises \<open>struct.error\<close>, which is not the
  encryption-format error.\<close>

theorem trailer_rejection_counterexample:
  "le_uint (drop (length zero_archive - 4) zero_archive) = 0
   \<and> fst (load_encryption identity_table (handle (opened zero_archive))) = Inl StructError
   \<and> fst (GearboxEncryptedBigFile_load identity_table no_structure (opened zero_archive)) =
       Some StructError"
proof -
  have l: "load_encryption identity_table \<lparr>contents = zero_archive, position = 0\<rparr> =
        (Inl StructError, \<lparr>contents = zero_archive, position = 16\<rparr>)"
    by (simp add: trailer_eval zero_archive_def)
  show ?thesis
    by (simp add: GearboxEncryptedBigFile_load_def opened_def l) (simp add: zero_archive_def le_uint_def)
qed

text \<open>
  C6 (decrypting read path). The claim: a read of size \<open>s\<close> at a position \<open>p\<close> below the
  encrypted region size returns the decryption of the bytes from \<open>p\<close> up to
  \<open>min(p + s, encrypted_region_size)\<close> and never crosses that boundary, and a read at or
  past it returns the underlying bytes. \<open>read_clamped\<close> shows this for every size
  \<open>n \<ge> 0\<close> and for a read without a size. A negative size is not clamped: the test
  \<open>cur_pos + size > self.data_size\<close> is false for it, the size goes to the handle,
  which reads to the end of the file, and all of it is decrypted. On the archive over
  \<open>sample_archive\<close> with its cipher loaded and the handle at position 14, two bytes
  before the region size 16, \<open>read(-1)\<close> returns 16 bytes, the trailer among them, and
  leaves the handle at 30; up to the boundary there are the two bytes that decrypt to
  \<open>93 21\<close>.
\<close>

theorem read_negative_size_crosses:
  "fst (load_encryption identity_table \<lparr>contents = sample_archive, position = 0\<rparr>) = Inr sample_crypt
   \<and> data_size sample_crypt = 16
   \<and> read \<lparr>handle = \<lparr>contents = sample_archive, position = 14\<rparr>, real_handle = None,
          crypto = Some sample_crypt\<rparr> (Some (- 1)) =
     (Inr [147, 33, 16, 48, 112, 240, 20, 48, 113, 240, 16, 48, 126, 240, 16, 48],
      \<lparr>handle = \<lparr>contents = sample_archive, position = 30\<rparr>, real_handle = None,
        crypto = Some sample_crypt\<rparr>)
   \<and> decrypt sample_crypt (take 2 (drop 14 sample_archive)) 14 = Inr [147, 33]"
proof -
  have "read \<lparr>handle = \<lparr>contents = sample_archive, position = 14\<rparr>, real_handle = None,
          crypto = Some sample_crypt\<rparr> (Some (- 1)) =
     (Inr [147, 33, 16, 48, 112, 240, 20, 48, 113, 240, 16, 48, 126, 240, 16, 48],
      \<lparr>handle = \<lparr>contents = sample_archive, position = 30\<rparr>, real_handle = None,
        crypto = Some sample_crypt\<rparr>)
   \<and> decrypt sample_crypt (take 2 (drop 14 sample_archive)) 14 = Inr [147, 33]"
    by (simp add: read_def read_encrypted_def big_data_size_def file_tell_def file_read_def
          sample_archive_def cipher_eval)
  then show ?thesis by (simp add: sample_archive_load) (simp add: sample_crypt_def)
qed

section \<open>Properties of the member list\<close>

lemma members_ref_sort_members [simp]: "members_ref (sort_members w self) obj = members_ref w obj"
  by (simp add: members_ref_def sort_members_def)

lemma members_ref_add [simp]: "members_ref (add w self b s) obj = members_ref w obj"
  by (simp add: members_ref_def add_def sort_members_def Let_def)

lemma get_filenames_sort_members:
  "sorted (get_filenames (sort_members w self) self)"
  "mset (get_filenames (sort_members w self) self) = mset (get_filenames w self)"
proof -
  have eq: "get_members (sort_members w self) self = sort_key name (get_members w self)"
    by (simp add: get_members_def) (simp add: sort_members_def)
  show "sorted (get_filenames (sort_members w self) self)"
    by (simp add: get_filenames_def eq sorted_sort_key)
  have "mset (map name (sort_key name (get_members w self))) = mset (map name (get_members w self))"
    by (simp only: mset_map mset_sort)
  then show "mset (get_filenames (sort_members w self) self) = mset (get_filenames w self)"
    by (simp add: get_filenames_def eq)
qed

lemma get_filenames_add_unsorted:
  "get_filenames (add w self b False) self = get_filenames w self @ [name b]"
  by (simp add: get_filenames_def get_members_def) (simp add: add_def)

lemma add_sorted_decompose:
  "add w self b True = sort_members (add w self b False) self"
  by (simp add: add_def Let_def)

lemma get_filenames_add_sorted:
  "sorted (get_filenames (add w self b True) self)"
  "mset (get_filenames (add w self b True) self) = mset (get_filenames w self) + {#name b#}"
  by (simp_all add: add_sorted_decompose get_filenames_sort_members get_filenames_add_unsorted)

lemma get_biginfo_name: "get_biginfo ts fs self f (Some alt) = Inr b \<Longrightarrow> name b = alt"
  by (auto simp: get_biginfo_def ExternalBigInfo_load_def Let_def split: option.splits)

lemma get_filenames_load:
  "sorted (get_filenames (BigFile_load w self r ms) self)"
  "mset (get_filenames (BigFile_load w self r ms) self) = mset (map name ms)"
proof -
  let ?w = "w\<lparr>list_objects := (list_objects w)(r := ms), members_attr := (members_attr w)(self \<mapsto> r)\<rparr>"
  have "get_filenames ?w self = map name ms"
    by (simp add: get_filenames_def get_members_def members_ref_def)
  then show "sorted (get_filenames (BigFile_load w self r ms) self)"
    and "mset (get_filenames (BigFile_load w self r ms) self) = mset (map name ms)"
    by (simp_all add: BigFile_load_def get_filenames_sort_members)
qed

lemma members_ref_list_objects [simp]:
  "members_ref (w\<lparr>list_objects := f\<rparr>) obj = members_ref w obj"
  by (simp add: members_ref_def)

lemma add_other_list:
  "members_ref w a \<noteq> members_ref w b \<Longrightarrow> get_members (add w a m s) b = get_members w b"
  by (auto simp: get_members_def add_def sort_members_def Let_def)

lemma get_biginfo_exists:
  "fs f = Some st \<Longrightarrow> \<exists>b. get_biginfo ts fs self (Path f) (Some alt) = Inr b \<and> name b = alt"
  by (simp add: get_biginfo_def ExternalBigInfo_load_def)

lemma add_files_returns:
  "\<forall>f\<in>set files. \<not> excl f \<longrightarrow> f \<in> dom fs \<Longrightarrow>
   fst (add_files ts fs w self path excl files) = None \<and>
   get_filenames (snd (add_files ts fs w self path excl files)) self =
     get_filenames w self @ map (remove_first path) (filter (\<lambda>fn. \<not> excl fn) files)"
proof (induction files arbitrary: w)
  case Nil
  then show ?case by simp
next
  case (Cons f files)
  show ?case
  proof (cases "excl f")
    case True
    with Cons show ?thesis by simp
  next
    case False
    with Cons.prems obtain st where "fs f = Some st" by auto
    then obtain b where
      b: "get_biginfo ts fs self (Path f) (Some (remove_first path f)) = Inr b"
      and n: "name b = remove_first path f"
      using get_biginfo_exists by blast
    have rest: "\<forall>f\<in>set files. \<not> excl f \<longrightarrow> f \<in> dom fs" using Cons.prems by simp
    show ?thesis
      using Cons.IH [OF rest, of "add w self b False"] False
      by (simp add: b n get_filenames_add_unsorted)
  qed
qed

lemma add_dirs_returns:
  "\<forall>f\<in>set (concat (map (\<lambda>(dirpath, dirnames, filenames). map (path_join dirpath) filenames) walk)).
      \<not> excl f \<longrightarrow> f \<in> dom fs \<Longrightarrow>
   fst (add_dirs ts fs w self path excl walk) = None \<and>
   get_filenames (snd (add_dirs ts fs w self path excl walk)) self =
     get_filenames w self @
     map (remove_first path) (filter (\<lambda>fn. \<not> excl fn)
       (concat (map (\<lambda>(dirpath, dirnames, filenames). map (path_join dirpath) filenames) walk)))"
proof (induction walk arbitrary: w)
  case Nil
  then show ?case by simp
next
  case (Cons d walk)
  obtain dirpath dirnames filenames where d: "d = (dirpath, dirnames, filenames)"
    by (cases d)
  have here: "\<forall>f\<in>set (map (path_join dirpath) filenames). \<not> excl f \<longrightarrow> f \<in> dom fs"
    using Cons.prems by (simp add: d)
  have rest: "\<forall>f\<in>set (concat (map (\<lambda>(dirpath, dirnames, filenames).
      map (path_join dirpath) filenames) walk)). \<not> excl f \<longrightarrow> f \<in> dom fs"
    using Cons.prems by (simp add: d)
  obtain w1 where w1: "add_files ts fs w self path excl (map (path_join dirpath) filenames) = (None, w1)"
    using add_files_returns [OF here, of ts w self path]
    by (cases "add_files ts fs w self path excl (map (path_join dirpath) filenames)") simp
  have n1: "get_filenames w1 self =
      get_filenames w self @
      map (remove_first path) (filter (\<lambda>fn. \<not> excl fn) (map (path_join dirpath) filenames))"
    using add_files_returns [OF here, of ts w self path] by (simp add: w1)
  show ?case
    using Cons.IH [OF rest, of w1] by (simp add: d w1 n1)
qed

lemma add_all_returns:
  assumes "\<forall>f\<in>set (walked_files (AddAll path exclude walk)). f \<in> dom fs"
  shows "fst (add_all ts fs w self path exclude walk) = None"
    and "sorted (get_filenames (snd (add_all ts fs w self path exclude walk)) self)"
    and "mset (get_filenames (snd (add_all ts fs w self path exclude walk)) self) =
         mset (get_filenames w self) + mset (added_names (AddAll path exclude walk))"
proof -
  let ?excl = "case exclude of None \<Rightarrow> (\<lambda>fn. False) | Some f \<Rightarrow> f"
  have e: "(\<lambda>fn. \<not> ?excl fn) = (\<lambda>fn. \<not> (case exclude of None \<Rightarrow> False | Some f \<Rightarrow> f fn))"
    by (cases exclude) simp_all
  have pre: "\<forall>f\<in>set (concat (map (\<lambda>(dirpath, dirnames, filenames).
      map (path_join dirpath) filenames) walk)). \<not> ?excl f \<longrightarrow> f \<in> dom fs"
    using assms by (cases exclude) auto
  obtain w1 where w1: "add_dirs ts fs w self path ?excl walk = (None, w1)"
    using add_dirs_returns [OF pre, of ts w self path]
    by (cases "add_dirs ts fs w self path ?excl walk") simp
  have n1: "get_filenames w1 self =
      get_filenames w self @ added_names (AddAll path exclude walk)"
    using add_dirs_returns [OF pre, of ts w self path] by (simp add: w1 e)
  have r: "add_all ts fs w self path exclude walk = (None, sort_members w1 self)"
    by (simp add: add_all_def Let_def w1)
  show "fst (add_all ts fs w self path exclude walk) = None"
    by (simp add: r)
  show "sorted (get_filenames (snd (add_all ts fs w self path exclude walk)) self)"
    by (simp add: r get_filenames_sort_members)
  show "mset (get_filenames (snd (add_all ts fs w self path exclude walk)) self) =
         mset (get_filenames w self) + mset (added_names (AddAll path exclude walk))"
    by (simp only: r snd_conv get_filenames_sort_members n1 mset_append)
qed

lemma run_calls_returns:
  "\<forall>c\<in>set calls. \<forall>f\<in>set (walked_files c). f \<in> dom fs \<Longrightarrow> sorted (get_filenames w self) \<Longrightarrow>
   fst (run_calls ts fs w self calls) = None \<and>
   sorted (get_filenames (snd (run_calls ts fs w self calls)) self) \<and>
   mset (get_filenames (snd (run_calls ts fs w self calls)) self) =
     mset (get_filenames w self) + mset (concat (map added_names calls))"
proof (induction calls arbitrary: w)
  case Nil
  then show ?case by simp
next
  case (Cons c calls)
  have rest: "\<forall>c\<in>set calls. \<forall>f\<in>set (walked_files c). f \<in> dom fs"
    using Cons.prems(1) by simp
  show ?case
  proof (cases c)
    case (Add b)
    show ?thesis
      using Cons.IH [OF rest get_filenames_add_sorted(1) [of w self b]]
      by (simp add: Add get_filenames_add_sorted(2))
  next
    case (AddAll path exclude walk)
    have here: "\<forall>f\<in>set (walked_files (AddAll path exclude walk)). f \<in> dom fs"
      using Cons.prems(1) by (simp add: AddAll)
    obtain w1 where w1: "add_all ts fs w self path exclude walk = (None, w1)"
      using add_all_returns(1) [OF here, of ts w self]
      by (cases "add_all ts fs w self path exclude walk") simp
    have s1: "sorted (get_filenames w1 self)"
      using add_all_returns(2) [OF here, of ts w self] by (simp add: w1)
    have m1: "mset (get_filenames w1 self) =
        mset (get_filenames w self) + mset (added_names (AddAll path exclude walk))"
      using add_all_returns(3) [OF here, of ts w self] by (simp add: w1)
    show ?thesis
      using Cons.IH [OF rest s1] by (simp add: AddAll w1 m1 del: added_names.simps walked_files.simps)
  qed
qed

section \<open>The claims about archive members\<close>

text \<open>
  C8 (sort invariant), as the code has it: for every archive that \<open>load\<close> has given its
  member list and every finite sequence of \<open>add\<close> calls with the default \<open>sort_after\<close>
  and of \<open>add_all\<close> calls in which every file that \<open>add_all\<close> passes to \<open>os.stat\<close>
  exists, every call returns, and \<open>get_filenames()\<close> is sorted lexicographically
  afterwards and holds, as a multiset, exactly the names of the loaded members and of the
  members the calls added.
\<close>

theorem sort_invariant:
  assumes "\<forall>c\<in>set calls. \<forall>f\<in>set (walked_files c). f \<in> dom fs"
  shows "fst (run_calls ts fs (BigFile_load w self r ms) self calls) = None
       \<and> sorted (get_filenames (snd (run_calls ts fs (BigFile_load w self r ms) self calls)) self)
       \<and> mset (get_filenames (snd (run_calls ts fs (BigFile_load w self r ms) self calls)) self) =
           mset (map name ms) + mset (concat (map added_names calls))"
  using run_calls_returns [OF assms get_filenames_load(1)] by (simp add: get_filenames_load(2))

lemma sample_calls_result:
  "get_filenames (snd (run_calls (\<lambda>t. t) sample_fs
      (BigFile_load initial_world 1 7 [member ''m.txt'', member ''a.txt'']) 1 sample_calls)) 1 =
     [''/sub/b.txt'', ''/z.txt'', ''a.txt'', ''c.txt'', ''m.txt'']"
  by (simp add: sample_calls_def add_all_def get_biginfo_def ExternalBigInfo_load_def sample_fs_def
        path_join_def get_filenames_def get_members_def members_ref_def initial_world_def add_def
        BigFile_load_def sort_members_def member_def Let_def less_eq_char_def)

theorem sort_invariant_witness:
  "fst (run_calls (\<lambda>t. t) sample_fs (BigFile_load initial_world 1 7 [member ''m.txt'', member ''a.txt''])
          1 sample_calls) = None
   \<and> sorted (get_filenames (snd (run_calls (\<lambda>t. t) sample_fs
          (BigFile_load initial_world 1 7 [member ''m.txt'', member ''a.txt'']) 1 sample_calls)) 1)
   \<and> mset (get_filenames (snd (run_calls (\<lambda>t. t) sample_fs
          (BigFile_load initial_world 1 7 [member ''m.txt'', member ''a.txt'']) 1 sample_calls)) 1) =
       mset [''m.txt'', ''a.txt''] + mset [''c.txt'', ''/z.txt'', ''/sub/b.txt'']
   \<and> get_filenames (snd (run_calls (\<lambda>t. t) sample_fs
          (BigFile_load initial_world 1 7 [member ''m.txt'', member ''a.txt'']) 1 sample_calls)) 1 =
       [''/sub/b.txt'', ''/z.txt'', ''a.txt'', ''c.txt'', ''m.txt'']"
proof -
  have "fst (run_calls (\<lambda>t. t) sample_fs (BigFile_load initial_world 1 7 [member ''m.txt'', member ''a.txt''])
          1 sample_calls) = None
   \<and> sorted (get_filenames (snd (run_calls (\<lambda>t. t) sample_fs
          (BigFile_load initial_world 1 7 [member ''m.txt'', member ''a.txt'']) 1 sample_calls)) 1)
   \<and> mset (get_filenames (snd (run_calls (\<lambda>t. t) sample_fs
          (BigFile_load initial_world 1 7 [member ''m.txt'', member ''a.txt'']) 1 sample_calls)) 1) =
       mset [''m.txt'', ''a.txt''] + mset [''c.txt'', ''/z.txt'', ''/sub/b.txt'']"
    using sort_invariant [of sample_calls sample_fs "\<lambda>t. t" initial_world 1 7
        "[member ''m.txt'', member ''a.txt'']"]
    by (simp add: sample_calls_def sample_fs_def member_def path_join_def)
  then show ?thesis using sample_calls_result by blast
qed

text \<open>The claim speaks of every sequence of calls. An \<open>add_all\<close> that raises leaves the
  list as the loop left it: with \<open>m.txt\<close> loaded and a walk over \<open>z.txt\<close>, which
  exists, and \<open>gone.txt\<close>, which does not, \<open>os.stat\<close> raises on the second file, the
  member for the first has been appended behind \<open>m.txt\<close>, and the names are not
  sorted.\<close>

theorem sort_invariant_counterexample:
  "fst (run_calls (\<lambda>t. t) sample_fs (BigFile_load initial_world 1 7 [member ''m.txt'']) 1
          [AddAll ''root'' None [(''root'', [], [''z.txt'', ''gone.txt''])]]) = Some OSError
   \<and> get_filenames (snd (run_calls (\<lambda>t. t) sample_fs (BigFile_load initial_world 1 7 [member ''m.txt'']) 1
          [AddAll ''root'' None [(''root'', [], [''z.txt'', ''gone.txt''])]])) 1 = [''m.txt'', ''/z.txt'']
   \<and> \<not> sorted [''m.txt'', ''/z.txt'']"
  by (simp add: add_all_def get_biginfo_def ExternalBigInfo_load_def sample_fs_def path_join_def
        get_filenames_def get_members_def members_ref_def initial_world_def add_def
        BigFile_load_def sort_members_def member_def Let_def less_eq_char_def)

text \<open>
  C9 (instance isolation). The claim: \<open>add\<close> on one archive never changes the member
  list of another. The claim does not hold for archives that have not been loaded: their
  \<open>_members\<close> is the one list of the class, and \<open>add\<close> on archive 1 appends to it, so
  archive 2 reports the member as well. (\<open>add_other_list\<close> above is the isolation that
  does hold: between archives whose lists are different objects.)
\<close>

theorem shared_class_member_list:
  "get_members initial_world 2 = []
   \<and> get_members (add initial_world 1 (member ''a.txt'') True) 2 = [member ''a.txt'']
   \<and> get_filenames (add initial_world 1 (member ''a.txt'') True) 2 = [''a.txt'']"
  by (simp add: get_filenames_def get_members_def members_ref_def initial_world_def add_def member_def
        sort_members_def class_members_def Let_def)



text \<open>
  C10 (members from the file system): every member that \<open>get_biginfo\<close> creates has
  offset 0 and a real size equal to its stored size, both the size the file system
  reports for the file, and is not compressed.
\<close>

theorem external_member_not_compressed:
  assumes "get_biginfo ts fs self file alt = Inr m"
  shows "offset m = 0 \<and> real_size m = stored_size m
       \<and> (\<exists>st. fs (case file of FileObject n \<Rightarrow> n | Path p \<Rightarrow> p) = Some st \<and> stored_size m = st_size st)
       \<and> \<not> is_compressed m"
  using assms
  by (auto simp: get_biginfo_def ExternalBigInfo_load_def is_compressed_def Let_def
           split: option.splits)

theorem external_member_witness:
  "get_biginfo (\<lambda>t. t) [''data/a.txt'' \<mapsto> \<lparr>st_mtime = 5, st_size = 100\<rparr>] 0
      (Path ''data/a.txt'') (Some ''/a.txt'') =
     Inr \<lparr>bigfile = 0, offset = 0, name = ''/a.txt'', mtime = 5, real_size = 100,
          stored_size = 100, real_filename = Some ''data/a.txt''\<rparr>
   \<and> \<not> is_compressed \<lparr>bigfile = 0, offset = 0, name = ''/a.txt'', mtime = 5, real_size = 100,
          stored_size = 100, real_filename = Some ''data/a.txt''\<rparr>"
proof -
  have h: "get_biginfo (\<lambda>t. t) [''data/a.txt'' \<mapsto> \<lparr>st_mtime = 5, st_size = 100\<rparr>] 0
      (Path ''data/a.txt'') (Some ''/a.txt'') =
     Inr \<lparr>bigfile = 0, offset = 0, name = ''/a.txt'', mtime = 5, real_size = 100,
          stored_size = 100, real_filename = Some ''data/a.txt''\<rparr>"
    by (simp add: get_biginfo_def ExternalBigInfo_load_def)
  show ?thesis
    using h external_member_not_compressed [OF h] by simp
qed

end
